theory Spec2Isabelle
  imports Complex_Main "HOL-Library.Word" "HOL-Library.Option_ord"
begin

unbundle bit_operations_syntax

section \<open>Data model\<close>

text \<open>
  The elements of a \<^verbatim>\<open>Uint8Array\<close> are bytes. JavaScript numbers that carry a noise level
  are idealised as reals, every expression keeping the operations of the source in the
  source's order; depth and size counters are integers.
\<close>

type_synonym byte = "8 word"

text \<open>
  The ciphertext objects of \<^verbatim>\<open>utils.ts\<close>: \<^verbatim>\<open>{data, noise, depth, size}\<close>, with the optional
  marks \<^verbatim>\<open>bootstrapped\<close> and \<^verbatim>\<open>relinearized\<close> (\<open>None\<close> when the property is absent). The
  field \<^verbatim>\<open>size\<close>, the component count, is \<open>size_ct\<close> here.
\<close>

record ciphertext =
  data :: "byte list"
  noise :: real
  depth :: int
  size_ct :: int
  bootstrapped :: "bool option"
  relinearized :: "bool option"

subsection \<open>Constants (\<^verbatim>\<open>FHE_CONSTANTS\<close>)\<close>

definition BASE_NOISE :: real where
  "BASE_NOISE = 3.2"

definition MAX_NOISE_LEVEL :: real where
  "MAX_NOISE_LEVEL = 100"

definition NOISE_GROWTH_ADD :: real where
  "NOISE_GROWTH_ADD = 1.1"

definition NOISE_GROWTH_MULTIPLY :: real where
  "NOISE_GROWTH_MULTIPLY = 2.5"

definition NOISE_GROWTH_ROTATE :: real where
  "NOISE_GROWTH_ROTATE = 1.2"

definition MAX_CIPHERTEXT_SIZE :: int where
  "MAX_CIPHERTEXT_SIZE = 3"

definition MAX_CIRCUIT_DEPTH :: int where
  "MAX_CIRCUIT_DEPTH = 20"

section \<open>Homomorphic operations (\<^verbatim>\<open>utils.ts\<close>)\<close>

subsection \<open>\<^verbatim>\<open>performHomomorphicAdd\<close>\<close>

text \<open>
  \<^verbatim>\<open>i < a.data.length ? a.data[i] : 0\<close>: the operand byte as a number, 0 beyond the end.
\<close>

definition byteOrZero :: "byte list \<Rightarrow> nat \<Rightarrow> nat" where
  "byteOrZero xs i = (if i < length xs then unat (xs ! i) else 0)"

text \<open>
  The loop \<^verbatim>\<open>for (let i = 0; i < result.length; i++) result[i] = (aVal + bVal) % 256\<close>,
  with the array and the loop counter as arguments.
\<close>

function addLoop :: "byte list \<Rightarrow> byte list \<Rightarrow> byte list \<Rightarrow> nat \<Rightarrow> byte list" where
  "addLoop a b result i =
     (if i < length result
      then addLoop a b (result[i := of_nat ((byteOrZero a i + byteOrZero b i) mod 256)]) (Suc i)
      else result)"
  by pat_completeness auto
termination
  by (relation "measure (\<lambda>(a, b, result, i). length result - i)") auto

declare addLoop.simps [simp del]

definition performHomomorphicAdd :: "ciphertext \<Rightarrow> ciphertext \<Rightarrow> ciphertext" where
  "performHomomorphicAdd a b =
     \<lparr> data = addLoop (data a) (data b) (replicate (max (length (data a)) (length (data b))) 0) 0,
       noise = noise a + noise b + NOISE_GROWTH_ADD,
       depth = max (depth a) (depth b),
       size_ct = size_ct a,
       bootstrapped = None,
       relinearized = None \<rparr>"

subsection \<open>\<^verbatim>\<open>bootstrapCiphertext\<close>\<close>

text \<open>
  \<^verbatim>\<open>{...ciphertext, noise: BASE_NOISE, depth: 0, bootstrapped: true}\<close>; the bootstrapping key
  is not read.
\<close>

definition bootstrapCiphertext :: "ciphertext \<Rightarrow> ciphertext" where
  "bootstrapCiphertext c = c\<lparr> noise := BASE_NOISE, depth := 0, bootstrapped := Some True \<rparr>"

subsection \<open>\<^verbatim>\<open>performHomomorphicMultiply\<close>\<close>

text \<open>
  The nested loops \<^verbatim>\<open>result[i + j] = (result[i + j] + a.data[i] * b.data[j]) % 256\<close>:
  the inner loop over \<open>j\<close> for one \<open>i\<close>, and the outer loop over \<open>i\<close>.
\<close>


function mulInner :: "byte list \<Rightarrow> byte list \<Rightarrow> nat \<Rightarrow> byte list \<Rightarrow> nat \<Rightarrow> byte list" where
  "mulInner a b i result j =
     (if j < length b
      then mulInner a b i
             (result[i + j := of_nat ((unat (result ! (i + j)) + unat (a ! i) * unat (b ! j)) mod 256)])
             (Suc j)
      else result)"
  by pat_completeness auto
termination
  by (relation "measure (\<lambda>(a, b, i, result, j). length b - j)") auto

declare mulInner.simps [simp del]

function mulOuter :: "byte list \<Rightarrow> byte list \<Rightarrow> byte list \<Rightarrow> nat \<Rightarrow> byte list" where
  "mulOuter a b result i =
     (if i < length a then mulOuter a b (mulInner a b i result 0) (Suc i) else result)"
  by pat_completeness auto
termination
  by (relation "measure (\<lambda>(a, b, result, i). length a - i)") auto

declare mulOuter.simps [simp del]

definition performHomomorphicMultiply :: "ciphertext \<Rightarrow> ciphertext \<Rightarrow> ciphertext" where
  "performHomomorphicMultiply a b =
     \<lparr> data = mulOuter (data a) (data b) (replicate (length (data a) + length (data b)) 0) 0,
       noise = noise a * noise b * NOISE_GROWTH_MULTIPLY,
       depth = max (depth a) (depth b) + 1,
       size_ct = size_ct a + size_ct b,
       bootstrapped = None,
       relinearized = None \<rparr>"

text \<open>
  The specification's reading of the payload, to compare the loops with: the discrete
  convolution of the two byte sequences at index \<open>k\<close>, reduced mod 256. \<open>convTerm\<close> is the
  product \<open>a[i] * b[k - i]\<close>, present when both indices are in range.
\<close>

definition convTerm :: "byte list \<Rightarrow> byte list \<Rightarrow> nat \<Rightarrow> nat \<Rightarrow> nat" where
  "convTerm a b k i = (if i \<le> k \<and> k - i < length b then unat (a ! i) * unat (b ! (k - i)) else 0)"

definition convolution256 :: "byte list \<Rightarrow> byte list \<Rightarrow> nat \<Rightarrow> nat" where
  "convolution256 a b k = (\<Sum>i<length a. convTerm a b k i) mod 256"

subsection \<open>Errors\<close>

text \<open>
  What the code throws: the \<^verbatim>\<open>RangeError\<close> of a typed array (negative length, \<^verbatim>\<open>set\<close> beyond
  the end), the \<^verbatim>\<open>TypeError\<close> of a property read on \<^verbatim>\<open>undefined\<close>, and \<^verbatim>\<open>new Error(message)\<close>.
\<close>

datatype error = RangeError | TypeError | Error string

subsection \<open>\<^verbatim>\<open>generateNoise\<close>\<close>

text \<open>
  \<^verbatim>\<open>Math.random()\<close> is an explicit sequence of draws: the \<open>n\<close>-th call made by one run of
  \<^verbatim>\<open>generateNoise\<close> returns \<open>rnd n\<close>. One byte of the keystream is
  \<^verbatim>\<open>Math.abs(Math.floor(z0 * stdDev)) % 256\<close> with the Box-Muller value \<open>z0\<close>, over the reals.
  For \<open>u1 = 0\<close> the logarithm is \<^verbatim>\<open>-Infinity\<close>, the remainder is \<^verbatim>\<open>NaN\<close>, and the array stores 0.
\<close>

definition noiseByte :: "real \<Rightarrow> real \<Rightarrow> real \<Rightarrow> byte" where
  "noiseByte stdDev u1 u2 =
     (if u1 = 0 then 0
      else of_int (\<bar>\<lfloor>sqrt (- 2 * ln u1) * cos (2 * pi * u2) * stdDev\<rfloor>\<bar> mod 256))"

function noiseLoop :: "real \<Rightarrow> (nat \<Rightarrow> real) \<Rightarrow> byte list \<Rightarrow> nat \<Rightarrow> byte list" where
  "noiseLoop stdDev rnd noiseArr i =
     (if i < length noiseArr
      then noiseLoop stdDev rnd (noiseArr[i := noiseByte stdDev (rnd (2 * i)) (rnd (2 * i + 1))]) (Suc i)
      else noiseArr)"
  by pat_completeness auto
termination
  by (relation "measure (\<lambda>(stdDev, rnd, noiseArr, i). length noiseArr - i)") auto

declare noiseLoop.simps [simp del]

definition generateNoise :: "real \<Rightarrow> (nat \<Rightarrow> real) \<Rightarrow> byte list" where
  "generateNoise stdDev rnd = noiseLoop stdDev rnd (replicate 32 0) 0"

subsection \<open>\<^verbatim>\<open>encryptValue\<close> and \<^verbatim>\<open>decryptValue\<close>\<close>

text \<open>
  The loop shared by both: \<^verbatim>\<open>for (i = 0; i < n; i++) out[i] = src[i] ^ noise[i % noise.length]\<close>.
\<close>

function xorLoop :: "byte list \<Rightarrow> byte list \<Rightarrow> byte list \<Rightarrow> nat \<Rightarrow> nat \<Rightarrow> byte list" where
  "xorLoop src noiseArr out n i =
     (if i < n
      then xorLoop src noiseArr (out[i := src ! i XOR noiseArr ! (i mod length noiseArr)]) n (Suc i)
      else out)"
  by pat_completeness auto
termination
  by (relation "measure (\<lambda>(src, noiseArr, out, n, i). n - i)") auto

declare xorLoop.simps [simp del]

text \<open>
  \<^verbatim>\<open>target.set(source, offset)\<close> of a typed array: a \<^verbatim>\<open>RangeError\<close> when the source does not
  fit, the target with the source copied in otherwise.
\<close>

definition typedArraySet :: "byte list \<Rightarrow> byte list \<Rightarrow> nat \<Rightarrow> error + byte list" where
  "typedArraySet target source offset =
     (if offset + length source \<le> length target
      then Inr (take offset target @ source @ drop (offset + length source) target)
      else Inl RangeError)"

text \<open>
  \<^verbatim>\<open>ethers.utils.keccak256\<close> is a parameter \<open>keccak256\<close> of the model, a function from bytes to a
  256-bit digest; \<^verbatim>\<open>ethers.utils.arrayify\<close> turns the digest into its 32 bytes, most
  significant first.
\<close>

definition arrayify :: "256 word \<Rightarrow> byte list" where
  "arrayify w = map (\<lambda>i. ucast (drop_bit (8 * (31 - i)) w)) [0..<32]"

definition encryptValue ::
    "(byte list \<Rightarrow> 256 word) \<Rightarrow> (nat \<Rightarrow> real) \<Rightarrow> byte list \<Rightarrow> real \<Rightarrow> error + ciphertext" where
  "encryptValue keccak256 rnd val noiseStdDev =
     (let noiseArr = generateNoise noiseStdDev rnd;
          encrypted = xorLoop val noiseArr (replicate (length val + 32) 0) (length val) 0;
          tag = arrayify (keccak256 (val @ noiseArr))
      in case typedArraySet encrypted tag (length val) of
           Inl e \<Rightarrow> Inl e
         | Inr encrypted' \<Rightarrow>
             Inr \<lparr> data = encrypted', noise = noiseStdDev, depth = 0, size_ct = 2,
                   bootstrapped = None, relinearized = None \<rparr>)"

definition decryptValue :: "(nat \<Rightarrow> real) \<Rightarrow> ciphertext \<Rightarrow> error + byte list" where
  "decryptValue rnd c =
     (if length (data c) < 32 then Inl RangeError
      else
        let originalLength = length (data c) - 32;
            noiseArr = generateNoise (noise c) rnd
        in Inr (xorLoop (data c) noiseArr (replicate originalLength 0) originalLength 0))"

subsection \<open>\<^verbatim>\<open>packValues\<close>\<close>

text \<open>
  \<^verbatim>\<open>(value.length >> s) & 0xff\<close>: the length is converted to a signed 32-bit integer, shifted
  right arithmetically and masked; the array stores the low byte.
\<close>

definition lengthByte :: "nat \<Rightarrow> nat \<Rightarrow> byte" where
  "lengthByte n s = ucast (signed_drop_bit s (word_of_nat n :: 32 word) AND 255)"

text \<open>\<^verbatim>\<open>values.reduce((sum, v) => sum + v.length + 4, 0)\<close>\<close>

definition totalLength :: "byte list list \<Rightarrow> nat" where
  "totalLength values = foldl (\<lambda>sum v. sum + length v + 4) 0 values"

text \<open>
  The loop \<^verbatim>\<open>for (const value of values)\<close>, with the buffer and the offset as arguments.
  A write \<^verbatim>\<open>packed[i] = x\<close> beyond the end of a typed array does nothing, as \<open>list_update\<close>.
\<close>

fun packLoop :: "byte list list \<Rightarrow> byte list \<Rightarrow> nat \<Rightarrow> error + byte list" where
  "packLoop [] packed offset = Inr packed"
| "packLoop (v # values) packed offset =
     (let packed1 = packed[offset := lengthByte (length v) 24];
          packed2 = packed1[offset + 1 := lengthByte (length v) 16];
          packed3 = packed2[offset + 2 := lengthByte (length v) 8];
          packed4 = packed3[offset + 3 := lengthByte (length v) 0];
          offset4 = offset + 4
      in case typedArraySet packed4 v offset4 of
           Inl e \<Rightarrow> Inl e
         | Inr packed5 \<Rightarrow> packLoop values packed5 (offset4 + length v))"

definition packValues :: "byte list list \<Rightarrow> error + byte list" where
  "packValues values = packLoop values (replicate (totalLength values) 0) 0"

subsection \<open>\<^verbatim>\<open>unpackValues\<close>\<close>

text \<open>
  \<^verbatim>\<open>packed[i]\<close> as an operand of \<^verbatim>\<open><<\<close> or \<^verbatim>\<open>|\<close>: a 32-bit integer, 0 for the
  \<^verbatim>\<open>undefined\<close> that an index outside the array reads.
\<close>

definition readByte :: "byte list \<Rightarrow> int \<Rightarrow> 32 word" where
  "readByte packed i =
     (if 0 \<le> i \<and> i < int (length packed) then ucast (packed ! nat i) else 0)"

text \<open>The four bytes at \<open>offset\<close>, shifted and joined by \<^verbatim>\<open>|\<close>: a signed 32-bit integer.\<close>

definition readLength :: "byte list \<Rightarrow> int \<Rightarrow> int" where
  "readLength packed offset =
     sint (push_bit 24 (readByte packed offset)
           OR push_bit 16 (readByte packed (offset + 1))
           OR push_bit 8 (readByte packed (offset + 2))
           OR readByte packed (offset + 3))"

text \<open>
  \<^verbatim>\<open>packed.slice(start, end)\<close>: a negative index counts from the end, both indices are
  clamped to the array, and an end before the start gives the empty array.
\<close>

definition typedArraySlice :: "byte list \<Rightarrow> int \<Rightarrow> int \<Rightarrow> byte list" where
  "typedArraySlice xs start fin =
     (let len = int (length xs);
          k = (if start < 0 then max (len + start) 0 else min start len);
          final = (if fin < 0 then max (len + fin) 0 else min fin len)
      in take (nat (final - k)) (drop (nat k) xs))"

text \<open>
  The loop \<^verbatim>\<open>while (offset < packed.length)\<close>. A negative length moves the offset back, so
  the loop need not end: \<open>None\<close> is the run that never returns.
\<close>

partial_function (option) unpackLoop ::
    "byte list \<Rightarrow> int \<Rightarrow> byte list list \<Rightarrow> byte list list option" where
  "unpackLoop packed offset values =
     (if offset < int (length packed)
      then
        let len = readLength packed offset;
            offset4 = offset + 4;
            v = typedArraySlice packed offset4 (offset4 + len)
        in unpackLoop packed (offset4 + len) (values @ [v])
      else Some values)"

declare unpackLoop.simps [code]

definition unpackValues :: "byte list \<Rightarrow> byte list list option" where
  "unpackValues packed = unpackLoop packed 0 []"

subsection \<open>The packed format of the specification\<close>

text \<open>
  The specification's packed buffer, to compare \<open>packValues\<close> with: for each value the four
  bytes of its length, most significant first, then the value, with nothing in between.
\<close>

definition be32 :: "nat \<Rightarrow> byte list" where
  "be32 n = [of_nat (n div 2 ^ 24), of_nat (n div 2 ^ 16), of_nat (n div 2 ^ 8), of_nat n]"

definition packedFormat :: "byte list list \<Rightarrow> byte list" where
  "packedFormat values = concat (map (\<lambda>v. be32 (length v) @ v) values)"

section \<open>The mock engine (\<^verbatim>\<open>utils.ts\<close>): negate, rotate, relinearize, serialize\<close>

text \<open>\<^verbatim>\<open>negateMockValue\<close>: every byte becomes \<^verbatim>\<open>(256 - byte) % 256\<close>, the noise grows by the ADD factor.\<close>

definition negateMockValue :: "ciphertext \<Rightarrow> ciphertext" where
  "negateMockValue v =
     v\<lparr> data := map (\<lambda>b. of_nat ((256 - unat b) mod 256)) (data v),
        noise := noise v * NOISE_GROWTH_ADD \<rparr>"

text \<open>
  The remainder \<^verbatim>\<open>a % b\<close> of JavaScript on integers takes the sign of \<open>a\<close>. A write to a typed
  array at a negative index does nothing.
\<close>

definition jsRem :: "int \<Rightarrow> int \<Rightarrow> int" where
  "jsRem a b = sgn a * (\<bar>a\<bar> mod \<bar>b\<bar>)"

definition writeAt :: "byte list \<Rightarrow> int \<Rightarrow> byte \<Rightarrow> byte list" where
  "writeAt xs k v = (if 0 \<le> k then xs[nat k := v] else xs)"

text \<open>
  \<^verbatim>\<open>rotateMockValue\<close>: \<^verbatim>\<open>rotated[(i + normalizedAmount) % length] = data[i]\<close> for every \<open>i\<close>.
  With an empty payload the loop does not run.
\<close>

definition rotateMockValue :: "ciphertext \<Rightarrow> int \<Rightarrow> ciphertext" where
  "rotateMockValue v amount =
     (let len = int (length (data v));
          normalizedAmount = jsRem amount len;
          rotated = fold (\<lambda>i rot. writeAt rot (jsRem (int i + normalizedAmount) len) (data v ! i))
                      [0..<length (data v)] (replicate (length (data v)) 0)
      in v\<lparr> data := rotated, noise := noise v * NOISE_GROWTH_ROTATE \<rparr>)"

text \<open>\<^verbatim>\<open>relinearizeMockValue\<close>: \<^verbatim>\<open>{...value, size: 2, relinearized: true}\<close>\<close>

definition relinearizeMockValue :: "ciphertext \<Rightarrow> ciphertext" where
  "relinearizeMockValue v = v\<lparr> size_ct := 2, relinearized := Some True \<rparr>"

text \<open>
  \<^verbatim>\<open>serializeCiphertext\<close> packs \<^verbatim>\<open>{data, noise, depth || 0, size || 2, bootstrapped || false}\<close> as
  JSON in base64. The string encoding is not modelled: a serialized ciphertext is the record
  of these five fields (prefixed \<open>s_\<close> here), and \<^verbatim>\<open>deserializeCiphertext\<close> reads them back.
\<close>

record serialized =
  s_data :: "byte list"
  s_noise :: real
  s_depth :: int
  s_size :: int
  s_bootstrapped :: bool

definition serializeCiphertext :: "ciphertext \<Rightarrow> serialized" where
  "serializeCiphertext c =
     \<lparr> s_data = data c,
       s_noise = noise c,
       s_depth = (if depth c = 0 then 0 else depth c),
       s_size = (if size_ct c = 0 then 2 else size_ct c),
       s_bootstrapped = (bootstrapped c = Some True) \<rparr>"

definition deserializeCiphertext :: "serialized \<Rightarrow> ciphertext" where
  "deserializeCiphertext s =
     \<lparr> data = s_data s, noise = s_noise s, depth = s_depth s, size_ct = s_size s,
       bootstrapped = Some (s_bootstrapped s), relinearized = None \<rparr>"

section \<open>The service (\<^verbatim>\<open>mcp-fhe-field-encryption.service.ts\<close>)\<close>

datatype FheScheme = TFHE | CKKS | BGV | BFV

subsection \<open>Noise level and relinearization\<close>

text \<open>
  \<^verbatim>\<open>calculateNoiseLevel(ciphertext: any)\<close> is called with a ciphertext object and, in
  \<^verbatim>\<open>encryptField\<close>, with the serialized string, which has no \<^verbatim>\<open>depth\<close> property.
  \<open>u\<close> is the value \<^verbatim>\<open>Math.random()\<close> returns in the call.
\<close>

datatype noiseArg = OfCiphertext ciphertext | OfSerialized serialized

definition depthFactor :: "noiseArg \<Rightarrow> real" where
  "depthFactor a =
     (case a of
        OfCiphertext c \<Rightarrow> (if depth c = 0 then 1 else real_of_int (depth c))
      | OfSerialized s \<Rightarrow> 1)"

definition calculateNoiseLevel :: "real \<Rightarrow> noiseArg \<Rightarrow> real" where
  "calculateNoiseLevel u a = (let baseNoise = u * 50 in baseNoise * depthFactor a)"

definition needsRelinearization :: "ciphertext \<Rightarrow> bool" where
  "needsRelinearization c = ((if size_ct c = 0 then 2 else size_ct c) > MAX_CIPHERTEXT_SIZE)"

definition relinearize :: "ciphertext \<Rightarrow> ciphertext" where
  "relinearize c = relinearizeMockValue c"

subsection \<open>The operations on lists of inputs\<close>

definition performAddition :: "ciphertext list \<Rightarrow> error + ciphertext" where
  "performAddition ins =
     (if length ins < 2 then Inl (Error ''Addition requires at least 2 inputs'')
      else Inr (foldl performHomomorphicAdd (hd ins) (tl ins)))"

text \<open>
  The loop of \<^verbatim>\<open>performMultiplication\<close> over \<^verbatim>\<open>inputs[1..]\<close>: multiply, then relinearize when
  \<^verbatim>\<open>needsRelinearization\<close> says so.
\<close>

fun multiplyLoop :: "ciphertext \<Rightarrow> ciphertext list \<Rightarrow> ciphertext" where
  "multiplyLoop result [] = result"
| "multiplyLoop result (x # xs) =
     (let product = performHomomorphicMultiply result x
      in multiplyLoop (if needsRelinearization product then relinearize product else product) xs)"

definition performMultiplication :: "ciphertext list \<Rightarrow> error + ciphertext" where
  "performMultiplication ins =
     (if length ins < 2 then Inl (Error ''Multiplication requires at least 2 inputs'')
      else Inr (multiplyLoop (hd ins) (tl ins)))"

definition performSubtraction :: "ciphertext list \<Rightarrow> error + ciphertext" where
  "performSubtraction ins =
     (if length ins \<noteq> 2 then Inl (Error ''Subtraction requires exactly 2 inputs'')
      else Inr (performHomomorphicAdd (ins ! 0) (negateMockValue (ins ! 1))))"

text \<open>
  \<^verbatim>\<open>inputs[0]\<close> of an empty list is \<^verbatim>\<open>undefined\<close>: negation and rotation then fail on
  \<^verbatim>\<open>value.data\<close>; bootstrapping builds an object without payload, on which
  \<^verbatim>\<open>serializeCiphertext\<close> fails (\<^verbatim>\<open>hexlify(undefined)\<close> throws a \<^verbatim>\<open>TypeError\<close>).
\<close>

definition performNegation :: "ciphertext list \<Rightarrow> error + ciphertext" where
  "performNegation ins =
     (case ins of [] \<Rightarrow> Inl TypeError | c # _ \<Rightarrow> Inr (negateMockValue c))"

definition performRotation :: "ciphertext list \<Rightarrow> int \<Rightarrow> error + ciphertext" where
  "performRotation ins rotationAmount =
     (case ins of [] \<Rightarrow> Inl TypeError | c # _ \<Rightarrow> Inr (rotateMockValue c rotationAmount))"

definition performBootstrapping :: "ciphertext \<Rightarrow> ciphertext" where
  "performBootstrapping c = bootstrapCiphertext c"

subsection \<open>\<^verbatim>\<open>performHomomorphicOperation\<close>\<close>

text \<open>
  \<^verbatim>\<open>HomomorphicOperation\<close> and \<^verbatim>\<open>FheComputationResult\<close> of \<^verbatim>\<open>types.ts\<close>. The operation's
  \<^verbatim>\<open>type\<close> and \<^verbatim>\<open>inputs\<close> are \<open>opType\<close> and \<open>opInputs\<close> here, the result's \<^verbatim>\<open>bootstrapped\<close> is
  \<open>bootstrapped_r\<close>.
\<close>

record HomomorphicOperation =
  opType :: string
  opInputs :: "serialized list"
  scheme :: FheScheme
  autoBootstrap :: "bool option"
  rotationAmount :: "int option"

record FheComputationResult =
  result :: serialized
  operationType :: string
  noiseLevel :: real
  bootstrapped_r :: "bool option"

text \<open>The \<^verbatim>\<open>switch (operation.type)\<close>.\<close>

definition dispatchOperation :: "HomomorphicOperation \<Rightarrow> ciphertext list \<Rightarrow> error + ciphertext" where
  "dispatchOperation operation ins =
     (if opType operation = ''add'' then performAddition ins
      else if opType operation = ''multiply'' then performMultiplication ins
      else if opType operation = ''subtract'' then performSubtraction ins
      else if opType operation = ''negate'' then performNegation ins
      else if opType operation = ''rotate'' then
        performRotation ins
          (case rotationAmount operation of None \<Rightarrow> 1 | Some k \<Rightarrow> if k = 0 then 1 else k)
      else if opType operation = ''bootstrap'' then
        (case ins of [] \<Rightarrow> Inl TypeError | c # _ \<Rightarrow> Inr (performBootstrapping c))
      else Inl (Error (''Unsupported operation: '' @ opType operation)))"

text \<open>
  \<open>wallet\<close> is the wallet address the user repository returns for the user, \<open>rnd\<close> the draws
  of \<^verbatim>\<open>Math.random()\<close> in call order: the two calls of \<^verbatim>\<open>calculateNoiseLevel\<close> are the only
  ones. Key lookup and the wall-clock \<^verbatim>\<open>computationTime\<close> are left out.
\<close>

definition performHomomorphicOperation ::
    "string option \<Rightarrow> (nat \<Rightarrow> real) \<Rightarrow> HomomorphicOperation \<Rightarrow> error + FheComputationResult" where
  "performHomomorphicOperation wallet rnd operation =
     (if wallet = None \<or> wallet = Some [] then Inl (Error ''User wallet not found'')
      else
        case dispatchOperation operation (map deserializeCiphertext (opInputs operation)) of
          Inl e \<Rightarrow> Inl e
        | Inr res \<Rightarrow>
            let noiseLevel1 = calculateNoiseLevel (rnd 0) (OfCiphertext res);
                needsBootstrapping = (noiseLevel1 > MAX_NOISE_LEVEL);
                res' = (if needsBootstrapping \<and> autoBootstrap operation = Some True
                        then performBootstrapping res else res)
            in Inr \<lparr> result = serializeCiphertext res',
                     operationType = opType operation,
                     noiseLevel = calculateNoiseLevel (rnd 1) (OfCiphertext res'),
                     bootstrapped_r = (if needsBootstrapping then autoBootstrap operation
                                       else Some False) \<rparr>)"

subsection \<open>\<^verbatim>\<open>encryptField\<close>\<close>

text \<open>
  \<^verbatim>\<open>performFheEncryption\<close>: every scheme's \<^verbatim>\<open>noiseStandardDeviation\<close> is 3.2.
\<close>

definition noiseStandardDeviation :: "FheScheme \<Rightarrow> real" where
  "noiseStandardDeviation s = 3.2"

definition performFheEncryption ::
    "(byte list \<Rightarrow> 256 word) \<Rightarrow> (nat \<Rightarrow> real) \<Rightarrow> byte list \<Rightarrow> FheScheme \<Rightarrow> error + serialized" where
  "performFheEncryption keccak256 rnd val s =
     (case encryptValue keccak256 rnd val (noiseStandardDeviation s) of
        Inl e \<Rightarrow> Inl e
      | Inr c \<Rightarrow> Inr (serializeCiphertext c))"

text \<open>
  Of \<^verbatim>\<open>encryptField\<close>: the encrypted value and the \<^verbatim>\<open>noiseLevel\<close> of its metadata
  (\<open>metadataNoiseLevel\<close>). \<open>plaintext\<close>
  is what \<^verbatim>\<open>prepareValueForEncryption\<close> returns. \<^verbatim>\<open>generateNoise\<close> makes the first 64 draws, so
  \<^verbatim>\<open>calculateNoiseLevel\<close> gets draw 64. Keys, the other metadata fields and the storage on
  chain are left out.
\<close>

record FheEncryptedData =
  encryptedValue :: serialized
  metadataNoiseLevel :: real

definition encryptField ::
    "(byte list \<Rightarrow> 256 word) \<Rightarrow> string option \<Rightarrow> (nat \<Rightarrow> real) \<Rightarrow> byte list \<Rightarrow> FheScheme
       \<Rightarrow> error + FheEncryptedData" where
  "encryptField keccak256 wallet rnd plaintext s =
     (if wallet = None \<or> wallet = Some [] then Inl (Error ''User wallet not found'')
      else
        case performFheEncryption keccak256 rnd plaintext s of
          Inl e \<Rightarrow> Inl e
        | Inr encrypted \<Rightarrow>
            Inr \<lparr> encryptedValue = encrypted,
                  metadataNoiseLevel = calculateNoiseLevel (rnd 64) (OfSerialized encrypted) \<rparr>)"

subsection \<open>Circuits\<close>

text \<open>
  \<^verbatim>\<open>CircuitGate\<close> and \<^verbatim>\<open>FheCircuit\<close> of \<^verbatim>\<open>types.ts\<close>; the gate's \<^verbatim>\<open>inputs\<close> and \<^verbatim>\<open>output\<close> are
  \<open>gateInputs\<close> and \<open>gateOutput\<close> here, and its untyped optional \<^verbatim>\<open>parameters\<close> is left out.
\<close>

record CircuitGate =
  operation :: string
  gateInputs :: "string list"
  gateOutput :: string

record FheCircuit =
  name :: string
  inputs :: "string list"
  outputs :: "string list"
  gates :: "CircuitGate list"

text \<open>
  A depth is a JavaScript number: an integer, or \<^verbatim>\<open>-Infinity\<close>, which \<^verbatim>\<open>Math.max()\<close> of no
  arguments returns. \<open>None\<close> is \<^verbatim>\<open>-Infinity\<close>, below every \<open>Some k\<close> in the order of options.
\<close>

type_synonym jsdepth = "int option"

definition mathMax :: "jsdepth list \<Rightarrow> jsdepth" where
  "mathMax ds = fold max ds None"

text \<open>\<^verbatim>\<open>depths.get(i) || 0\<close>: 0 for a wire without entry; \<^verbatim>\<open>-Infinity\<close> is truthy and stays.\<close>

definition depthOf :: "(string \<rightharpoonup> jsdepth) \<Rightarrow> string \<Rightarrow> jsdepth" where
  "depthOf depths i =
     (case depths i of None \<Rightarrow> Some 0 | Some d \<Rightarrow> if d = Some 0 then Some 0 else d)"

definition gateDepthOf :: "(string \<rightharpoonup> jsdepth) \<Rightarrow> CircuitGate \<Rightarrow> jsdepth" where
  "gateDepthOf depths gate =
     (let inputDepths = map (depthOf depths) (gateInputs gate)
      in if operation gate = ''multiply''
         then map_option (\<lambda>d. d + 1) (mathMax inputDepths)
         else mathMax inputDepths)"

fun seedDepths :: "string list \<Rightarrow> (string \<rightharpoonup> jsdepth) \<Rightarrow> (string \<rightharpoonup> jsdepth)" where
  "seedDepths [] depths = depths"
| "seedDepths (i # is) depths = seedDepths is (depths(i \<mapsto> Some 0))"

fun depthLoop :: "CircuitGate list \<Rightarrow> (string \<rightharpoonup> jsdepth) \<Rightarrow> jsdepth \<Rightarrow> jsdepth" where
  "depthLoop [] depths maxDepth = maxDepth"
| "depthLoop (gate # gs) depths maxDepth =
     (let gateDepth = gateDepthOf depths gate
      in depthLoop gs (depths(gateOutput gate \<mapsto> gateDepth)) (max maxDepth gateDepth))"

definition calculateCircuitDepth :: "FheCircuit \<Rightarrow> jsdepth" where
  "calculateCircuitDepth circuit = depthLoop (gates circuit) (seedDepths (inputs circuit) Map.empty) (Some 0)"

fun estimateLoop :: "CircuitGate list \<Rightarrow> real \<Rightarrow> real" where
  "estimateLoop [] noiseEstimate = noiseEstimate"
| "estimateLoop (gate # gs) noiseEstimate =
     estimateLoop gs
       (if operation gate = ''multiply'' then noiseEstimate * NOISE_GROWTH_MULTIPLY
        else if operation gate = ''add'' then noiseEstimate * NOISE_GROWTH_ADD
        else if operation gate = ''rotate'' then noiseEstimate * NOISE_GROWTH_ROTATE
        else noiseEstimate)"

definition estimateNoiseGrowth :: "FheCircuit \<Rightarrow> real" where
  "estimateNoiseGrowth circuit = estimateLoop (gates circuit) BASE_NOISE"

text \<open>The plan that \<^verbatim>\<open>compileCircuit\<close> returns; its \<^verbatim>\<open>depth\<close> is \<open>planDepth\<close> here.\<close>

record ExecutionPlan =
  operations :: "CircuitGate list"
  inputCount :: nat
  outputCount :: nat
  planDepth :: jsdepth
  estimatedNoiseGrowth :: real

text \<open>
  \<^verbatim>\<open>compileCircuit\<close> copies the gates into the plan and fills in the counts, the depth and the
  noise estimate. It has no \<^verbatim>\<open>throw\<close>; the result is a sum so that a rejection could be told
  from a plan. \<^verbatim>\<open>CIRCUIT_TOO_DEEP\<close> is the message of \<^verbatim>\<open>ERROR_MESSAGES\<close>.
\<close>

definition CIRCUIT_TOO_DEEP :: string where
  "CIRCUIT_TOO_DEEP = ''Circuit depth exceeds maximum''"

definition compileCircuit :: "FheCircuit \<Rightarrow> error + ExecutionPlan" where
  "compileCircuit circuit =
     Inr \<lparr> operations = map (\<lambda>gate. \<lparr> operation = operation gate, gateInputs = gateInputs gate,
                                     gateOutput = gateOutput gate \<rparr>) (gates circuit),
           inputCount = length (inputs circuit),
           outputCount = length (outputs circuit),
           planDepth = calculateCircuitDepth circuit,
           estimatedNoiseGrowth = estimateNoiseGrowth circuit \<rparr>"

text \<open>
  The specification's reading of the walk, to compare \<open>depthLoop\<close> with: the depth of every
  gate in list order, each gate's depth recorded for its output wire before the next gate.
\<close>

fun gateDepths :: "CircuitGate list \<Rightarrow> (string \<rightharpoonup> jsdepth) \<Rightarrow> jsdepth list" where
  "gateDepths [] depths = []"
| "gateDepths (gate # gs) depths =
     gateDepthOf depths gate # gateDepths gs (depths(gateOutput gate \<mapsto> gateDepthOf depths gate))"

text \<open>The invariant of the walk when no gate is without inputs: no wire has depth \<^verbatim>\<open>-Infinity\<close>.\<close>

definition nonnegDepths :: "(string \<rightharpoonup> jsdepth) \<Rightarrow> bool" where
  "nonnegDepths depths = (\<forall>w d. depths w = Some d \<longrightarrow> Some 0 \<le> d)"

section \<open>Properties\<close>

subsection \<open>Addition\<close>

lemma addLoop_length: "length (addLoop a b res i) = length res"
proof (induction a b res i rule: addLoop.induct)
  case (1 a b res i)
  then show ?case
    by (cases "i < length res") (simp_all add: addLoop.simps [of a b res i])
qed

lemma addLoop_nth:
  "k < length res \<Longrightarrow>
   addLoop a b res i ! k =
     (if i \<le> k then of_nat ((byteOrZero a k + byteOrZero b k) mod 256) else res ! k)"
proof (induction a b res i rule: addLoop.induct)
  case (1 a b res i)
  show ?case
  proof (cases "i < length res")
    case True
    have step: "addLoop a b res i
        = addLoop a b (res[i := of_nat ((byteOrZero a i + byteOrZero b i) mod 256)]) (Suc i)"
      using True by (subst addLoop.simps) simp
    show ?thesis
      unfolding step using "1.IH" [OF True] "1.prems"
      by (cases "i = k") (auto simp: nth_list_update)
  next
    case False
    with "1.prems" show ?thesis by (simp add: addLoop.simps [of a b res i])
  qed
qed

lemma unat_byte_of_mod: "unat (of_nat (n mod 256) :: byte) = n mod 256"
  by (simp add: unat_of_nat)

text \<open>
  C3. The sum of two ciphertexts: the payload is as long as the longer operand payload and
  holds, at each index, the sum mod 256 of the operand bytes (0 beyond the end of the shorter
  one); the noise is \<open>a.noise + b.noise + 1.1\<close>, the depth the larger operand depth, and the
  component count that of \<open>a\<close>.
\<close>

theorem performHomomorphicAdd_contract:
  "length (data (performHomomorphicAdd a b)) = max (length (data a)) (length (data b))
   \<and> (\<forall>i < max (length (data a)) (length (data b)).
         unat (data (performHomomorphicAdd a b) ! i)
           = (byteOrZero (data a) i + byteOrZero (data b) i) mod 256)
   \<and> noise (performHomomorphicAdd a b) = noise a + noise b + 1.1
   \<and> depth (performHomomorphicAdd a b) = max (depth a) (depth b)
   \<and> size_ct (performHomomorphicAdd a b) = size_ct a"
  by (simp add: performHomomorphicAdd_def addLoop_length addLoop_nth unat_byte_of_mod
      NOISE_GROWTH_ADD_def)

theorem performHomomorphicAdd_contract_witness:
  "map unat (data (performHomomorphicAdd
      \<lparr> data = [200, 100, 7], noise = 3.2, depth = 1, size_ct = 2,
        bootstrapped = None, relinearized = None \<rparr>
      \<lparr> data = [100, 1], noise = 4, depth = 0, size_ct = 4,
        bootstrapped = None, relinearized = None \<rparr>)) = [44, 101, 7]"
proof -
  let ?a = "\<lparr> data = [200, 100, 7 :: byte], noise = 3.2, depth = 1, size_ct = 2,
        bootstrapped = None, relinearized = None \<rparr>"
  let ?b = "\<lparr> data = [100, 1 :: byte], noise = 4, depth = 0, size_ct = 4,
        bootstrapped = None, relinearized = None \<rparr>"
  let ?r = "data (performHomomorphicAdd ?a ?b)"
  from performHomomorphicAdd_contract [of ?a ?b]
  have len: "length ?r = 3"
    and nth: "\<forall>i<3. unat (?r ! i) = (byteOrZero [200, 100, 7] i + byteOrZero [100, 1] i) mod 256"
    by simp_all
  have "map unat ?r = map (\<lambda>i. unat (?r ! i)) [0..<3]"
    using len by (intro nth_equalityI) simp_all
  also have "\<dots> = map (\<lambda>i. (byteOrZero [200, 100, 7] i + byteOrZero [100, 1] i) mod 256) [0..<3]"
    using nth by simp
  also have "\<dots> = [44, 101, 7]"
    by code_simp
  finally show ?thesis .
qed

subsection \<open>Bootstrapping\<close>

text \<open>
  C4. Bootstrapping any ciphertext, bootstrapped before or not, gives noise 3.2, depth 0 and
  the mark \<open>bootstrapped = true\<close>, and leaves the payload and every other field as it was.
\<close>

theorem bootstrapCiphertext_contract:
  "noise (bootstrapCiphertext x) = 3.2
   \<and> depth (bootstrapCiphertext x) = 0
   \<and> bootstrapped (bootstrapCiphertext x) = Some True
   \<and> data (bootstrapCiphertext x) = data x
   \<and> size_ct (bootstrapCiphertext x) = size_ct x
   \<and> relinearized (bootstrapCiphertext x) = relinearized x
   \<and> bootstrapCiphertext (bootstrapCiphertext x) = bootstrapCiphertext x"
  by (simp add: bootstrapCiphertext_def BASE_NOISE_def)

subsection \<open>Multiplication\<close>

lemma mulInner_length: "length (mulInner a b i res j) = length res"
proof (induction a b i res j rule: mulInner.induct)
  case (1 a b i res j)
  then show ?case
    by (cases "j < length b") (simp_all add: mulInner.simps [of a b i res j])
qed

lemma mulOuter_length: "length (mulOuter a b res i) = length res"
proof (induction a b res i rule: mulOuter.induct)
  case (1 a b res i)
  then show ?case
    by (cases "i < length a") (simp_all add: mulInner_length mulOuter.simps [of a b res i])
qed

lemma mulInner_nth:
  "i + length b \<le> length res \<Longrightarrow> k < length res \<Longrightarrow>
   unat (mulInner a b i res j ! k) =
     (unat (res ! k) + (if i + j \<le> k then convTerm a b k i else 0)) mod 256"
proof (induction a b i res j rule: mulInner.induct)
  case (1 a b i res j)
  have small: "unat (res ! k) mod 256 = unat (res ! k)"
    using unsigned_less [of "res ! k", where ?'a = nat] by simp
  show ?case
  proof (cases "j < length b")
    case True
    let ?r = "res[i + j := of_nat ((unat (res ! (i + j)) + unat (a ! i) * unat (b ! j)) mod 256)]"
    have "unat (mulInner a b i res j ! k) = unat (mulInner a b i ?r (Suc j) ! k)"
      using True by (subst mulInner.simps) simp
    also have "\<dots> = (unat (?r ! k) + (if i + Suc j \<le> k then convTerm a b k i else 0)) mod 256"
      using "1.IH" [OF True] "1.prems" by simp
    also have "\<dots> = (unat (res ! k) + (if i + j \<le> k then convTerm a b k i else 0)) mod 256"
    proof (cases "k = i + j")
      case True
      with \<open>j < length b\<close> "1.prems" show ?thesis
        by (simp add: convTerm_def unat_byte_of_mod)
    next
      case False
      then show ?thesis by auto
    qed
    finally show ?thesis .
  next
    case False
    then have "i + j \<le> k \<Longrightarrow> convTerm a b k i = 0"
      by (auto simp: convTerm_def)
    with False small show ?thesis by (auto simp: mulInner.simps [of a b i res j])
  qed
qed

lemma mulOuter_nth:
  "length a + length b \<le> length res \<Longrightarrow> k < length res \<Longrightarrow> i \<le> length a \<Longrightarrow>
   unat (mulOuter a b res i ! k) =
     (unat (res ! k) + (\<Sum>i' = i..<length a. convTerm a b k i')) mod 256"
proof (induction a b res i rule: mulOuter.induct)
  case (1 a b res i)
  have small: "unat (res ! k) mod 256 = unat (res ! k)"
    using unsigned_less [of "res ! k", where ?'a = nat] by simp
  show ?case
  proof (cases "i < length a")
    case True
    let ?r = "mulInner a b i res 0"
    have len: "length ?r = length res" by (rule mulInner_length)
    have "unat (mulOuter a b res i ! k) = unat (mulOuter a b ?r (Suc i) ! k)"
      using True by (subst mulOuter.simps) simp
    also have "\<dots> = (unat (?r ! k) + (\<Sum>i' = Suc i..<length a. convTerm a b k i')) mod 256"
      using "1.IH" [OF True] "1.prems" True len by simp
    also have "unat (?r ! k) = (unat (res ! k) + (if i \<le> k then convTerm a b k i else 0)) mod 256"
      using mulInner_nth [of i b res k a 0] "1.prems" True by simp
    also have "(if i \<le> k then convTerm a b k i else 0) = convTerm a b k i"
      by (simp add: convTerm_def)
    also have "((unat (res ! k) + convTerm a b k i) mod 256 + (\<Sum>i' = Suc i..<length a. convTerm a b k i')) mod 256
        = (unat (res ! k) + (convTerm a b k i + (\<Sum>i' = Suc i..<length a. convTerm a b k i'))) mod 256"
      by (simp add: mod_add_left_eq add.assoc)
    also have "convTerm a b k i + (\<Sum>i' = Suc i..<length a. convTerm a b k i') = (\<Sum>i' = i..<length a. convTerm a b k i')"
      using True by (simp add: sum.atLeast_Suc_lessThan)
    finally show ?thesis .
  next
    case False
    then have "mulOuter a b res i = res"
      by (subst mulOuter.simps) simp
    with False "1.prems" small show ?thesis by simp
  qed
qed

text \<open>
  C2. The product of two ciphertexts: the payload has length \<open>len(a) + len(b)\<close> and holds, at
  each index \<open>k\<close>, the discrete convolution \<open>\<Sum> a[i] * b[k - i]\<close> of the operand payloads
  reduced mod 256 (so the last byte is 0); the noise is \<open>a.noise * b.noise * 2.5\<close>, the depth
  \<open>max(a.depth, b.depth) + 1\<close>, and the component count \<open>a.size + b.size\<close>.
\<close>

theorem performHomomorphicMultiply_contract:
  "length (data (performHomomorphicMultiply a b)) = length (data a) + length (data b)
   \<and> (\<forall>k < length (data a) + length (data b).
         unat (data (performHomomorphicMultiply a b) ! k) = convolution256 (data a) (data b) k)
   \<and> noise (performHomomorphicMultiply a b) = noise a * noise b * 2.5
   \<and> depth (performHomomorphicMultiply a b) = max (depth a) (depth b) + 1
   \<and> size_ct (performHomomorphicMultiply a b) = size_ct a + size_ct b"
  by (simp add: performHomomorphicMultiply_def mulOuter_length mulOuter_nth convolution256_def
      NOISE_GROWTH_MULTIPLY_def atLeast0LessThan)


theorem performHomomorphicMultiply_contract_witness:
  "map unat (data (performHomomorphicMultiply
      \<lparr> data = [3, 200], noise = 3.2, depth = 1, size_ct = 2,
        bootstrapped = None, relinearized = None \<rparr>
      \<lparr> data = [5, 7], noise = 4, depth = 0, size_ct = 4,
        bootstrapped = None, relinearized = None \<rparr>)) = [15, 253, 120, 0]"
proof -
  let ?a = "\<lparr> data = [3, 200 :: byte], noise = 3.2, depth = 1, size_ct = 2,
        bootstrapped = None, relinearized = None \<rparr>"
  let ?b = "\<lparr> data = [5, 7 :: byte], noise = 4, depth = 0, size_ct = 4,
        bootstrapped = None, relinearized = None \<rparr>"
  let ?r = "data (performHomomorphicMultiply ?a ?b)"
  from performHomomorphicMultiply_contract [of ?a ?b]
  have len: "length ?r = 4"
    and nth: "\<forall>k<4. unat (?r ! k) = convolution256 [3, 200] [5, 7] k"
    by simp_all
  have "map unat ?r = map (\<lambda>k. unat (?r ! k)) [0..<4]"
    using len by (intro nth_equalityI) simp_all
  also have "\<dots> = map (convolution256 [3, 200] [5, 7]) [0..<4]"
    using nth by simp
  also have "\<dots> = [15, 253, 120, 0]"
    by code_simp
  finally show ?thesis .
qed

subsection \<open>Encryption round trip\<close>

lemma noiseLoop_length: "length (noiseLoop stdDev rnd noiseArr i) = length noiseArr"
proof (induction stdDev rnd noiseArr i rule: noiseLoop.induct)
  case (1 stdDev rnd noiseArr i)
  then show ?case
    by (cases "i < length noiseArr") (simp_all add: noiseLoop.simps [of stdDev rnd noiseArr i])
qed

lemma generateNoise_length: "length (generateNoise stdDev rnd) = 32"
  by (simp add: generateNoise_def noiseLoop_length)

lemma xorLoop_length: "length (xorLoop src noiseArr out n i) = length out"
proof (induction src noiseArr out n i rule: xorLoop.induct)
  case (1 src noiseArr out n i)
  then show ?case
    by (cases "i < n") (simp_all add: xorLoop.simps [of src noiseArr out n i])
qed

lemma xorLoop_nth:
  "k < length out \<Longrightarrow>
   xorLoop src noiseArr out n i ! k =
     (if i \<le> k \<and> k < n then src ! k XOR noiseArr ! (k mod length noiseArr) else out ! k)"
proof (induction src noiseArr out n i rule: xorLoop.induct)
  case (1 src noiseArr out n i)
  show ?case
  proof (cases "i < n")
    case True
    have step: "xorLoop src noiseArr out n i
        = xorLoop src noiseArr (out[i := src ! i XOR noiseArr ! (i mod length noiseArr)]) n (Suc i)"
      using True by (subst xorLoop.simps) simp
    show ?thesis
      unfolding step using "1.IH" [OF True] "1.prems" True
      by (cases "i = k") (auto simp: nth_list_update)
  next
    case False
    then have "xorLoop src noiseArr out n i = out"
      by (subst xorLoop.simps) simp
    with False show ?thesis by auto
  qed
qed

lemma arrayify_length: "length (arrayify w) = 32"
  by (simp add: arrayify_def)

text \<open>
  C1. With the same sequence of draws at encoding and at decoding, so that both runs of
  \<open>generateNoise\<close> give the same 32-byte keystream, encoding any plaintext \<open>m\<close> with any
  \<open>sigma\<close> succeeds: the ciphertext carries \<open>sigma\<close> as its noise and a payload of
  \<open>length m + 32\<close> bytes that ends in the 32-byte tag. Decoding it XORs the keystream,
  repeated cyclically, against the payload without the tag, and returns \<open>m\<close>.
\<close>

theorem decryptValue_encryptValue:
  "\<exists>c. encryptValue keccak256 rnd m sigma = Inr c
     \<and> noise c = sigma
     \<and> length (generateNoise (noise c) rnd) = 32
     \<and> length (data c) = length m + 32
     \<and> drop (length m) (data c) = arrayify (keccak256 (m @ generateNoise sigma rnd))
     \<and> decryptValue rnd c
         = Inr (map (\<lambda>i. data c ! i XOR generateNoise (noise c) rnd ! (i mod 32))
                  [0..<length (data c) - 32])
     \<and> decryptValue rnd c = Inr m"
proof -
  let ?ks = "generateNoise sigma rnd"
  let ?x = "xorLoop m ?ks (replicate (length m + 32) 0) (length m) 0"
  let ?tag = "arrayify (keccak256 (m @ ?ks))"
  let ?d = "take (length m) ?x @ ?tag @ drop (length m + length ?tag) ?x"
  let ?c = "\<lparr> data = ?d, noise = sigma, depth = 0, size_ct = 2,
              bootstrapped = None, relinearized = None \<rparr>"
  let ?out = "xorLoop ?d ?ks (replicate (length m) 0) (length m) 0"
  have lx: "length ?x = length m + 32"
    by (simp add: xorLoop_length)
  have enc: "encryptValue keccak256 rnd m sigma = Inr ?c"
    by (simp add: encryptValue_def typedArraySet_def lx arrayify_length Let_def)
  have ld: "length ?d = length m + 32"
    by (simp add: lx arrayify_length)
  have tag: "drop (length m) ?d = ?tag"
    by (simp add: lx arrayify_length)
  have head: "?d ! k = m ! k XOR ?ks ! (k mod 32)" if "k < length m" for k
  proof -
    have "?d ! k = ?x ! k"
      using that lx by (simp add: nth_append)
    also have "\<dots> = m ! k XOR ?ks ! (k mod 32)"
      using that by (simp add: xorLoop_nth generateNoise_length)
    finally show ?thesis .
  qed
  have lout: "length ?out = length m"
    by (simp add: xorLoop_length)
  have out_nth: "?out ! k = ?d ! k XOR ?ks ! (k mod 32)" if "k < length m" for k
    using that by (simp add: xorLoop_nth generateNoise_length)
  have dec: "decryptValue rnd ?c = Inr ?out"
    using ld by (simp add: decryptValue_def Let_def)
  have xors: "?out = map (\<lambda>i. ?d ! i XOR ?ks ! (i mod 32)) [0..<length ?d - 32]"
    using lout ld out_nth by (intro nth_equalityI) simp_all
  have "?out = m"
  proof (intro nth_equalityI)
    show "length ?out = length m"
      by (rule lout)
  next
    fix k
    assume "k < length ?out"
    then have k: "k < length m"
      by (simp add: lout)
    have "?out ! k = ?d ! k XOR ?ks ! (k mod 32)"
      using k by (rule out_nth)
    also have "\<dots> = m ! k"
      unfolding head [OF k] by (simp add: xor.assoc)
    finally show "?out ! k = m ! k" .
  qed
  with dec xors have "decryptValue rnd ?c = Inr m"
    and "decryptValue rnd ?c = Inr (map (\<lambda>i. ?d ! i XOR ?ks ! (i mod 32)) [0..<length ?d - 32])"
    by simp_all
  with enc ld tag show ?thesis
    by (intro exI [of _ ?c]) (simp add: generateNoise_length)
qed

subsection \<open>Packing\<close>

lemma word255_mask: "(255 :: 'a::len word) = mask 8"
  by (simp add: mask_eq_exp_minus_1)

lemma lengthByte_div: "s \<le> 24 \<Longrightarrow> lengthByte n s = of_nat (n div 2 ^ s)"
  unfolding lengthByte_def word255_mask
  apply (intro bit_word_eqI)
  apply (auto simp: bit_simps simp flip: drop_bit_eq_div)
  done

lemma lengthBytes_be32:
  "[lengthByte n 24, lengthByte n 16, lengthByte n 8, lengthByte n 0] = be32 n"
  by (simp add: lengthByte_div be32_def)



lemma be32_length: "length (be32 n) = 4"
  by (simp add: be32_def)

lemma totalLength_format: "foldl (\<lambda>sum v. sum + length v + 4) a vs = a + length (packedFormat vs)"
  by (induction vs arbitrary: a) (simp_all add: packedFormat_def be32_length)

lemma packLoop_format:
  "packLoop vs (pre @ replicate (length (packedFormat vs)) 0) (length pre)
     = Inr (pre @ packedFormat vs)"
proof (induction vs arbitrary: pre)
  case Nil
  then show ?case by (simp add: packedFormat_def)
next
  case (Cons v vs)
  let ?n = "length v"
  let ?L = "length (packedFormat vs)"
  have fmt: "packedFormat (v # vs) = be32 ?n @ v @ packedFormat vs"
    by (simp add: packedFormat_def)
  have zeros: "replicate (length (packedFormat (v # vs))) (0 :: byte)
      = 0 # 0 # 0 # 0 # replicate ?n 0 @ replicate ?L 0"
    by (simp add: fmt be32_length replicate_add [symmetric] numeral_eq_Suc del: replicate_add)
  let ?p4 = "pre @ be32 ?n @ replicate ?n 0 @ replicate ?L 0"
  have upd: "(pre @ replicate (length (packedFormat (v # vs))) 0)
        [length pre := lengthByte ?n 24, length pre + 1 := lengthByte ?n 16,
         length pre + 2 := lengthByte ?n 8, length pre + 3 := lengthByte ?n 0] = ?p4"
    unfolding zeros lengthBytes_be32 [symmetric]
    by (simp add: list_update_append)
  have set: "typedArraySet ?p4 v (length pre + 4) = Inr ((pre @ be32 ?n @ v) @ replicate ?L 0)"
    by (simp add: typedArraySet_def be32_length)
  have "packLoop (v # vs) (pre @ replicate (length (packedFormat (v # vs))) 0) (length pre)
      = packLoop vs ((pre @ be32 ?n @ v) @ replicate ?L 0) (length pre + 4 + ?n)"
    using upd set by (simp add: Let_def)
  also have "\<dots> = Inr ((pre @ be32 ?n @ v) @ packedFormat vs)"
    using Cons.IH [of "pre @ be32 ?n @ v"] by (simp add: be32_length add.assoc)
  finally show ?case by (simp add: fmt)
qed

lemma packValues_format: "packValues vs = Inr (packedFormat vs)"
  using packLoop_format [of vs "[]"]
  by (simp add: packValues_def totalLength_def totalLength_format)


subsection \<open>Unpacking\<close>

lemma ucast_lengthByte:
  "s \<le> 24 \<Longrightarrow> (ucast (lengthByte n s) :: 32 word) = drop_bit s (word_of_nat n) AND mask 8"
  unfolding lengthByte_def word255_mask
  apply (intro bit_word_eqI)
  apply (auto simp: bit_simps)
  done

lemma reassemble_word:
  fixes w :: "32 word"
  shows "push_bit 24 (drop_bit 24 w AND mask 8) OR push_bit 16 (drop_bit 16 w AND mask 8)
     OR push_bit 8 (drop_bit 8 w AND mask 8) OR (drop_bit 0 w AND mask 8) = w"
proof (intro bit_word_eqI)
  fix n :: nat
  assume "n < LENGTH(32)"
  then consider "n < 8" | "8 \<le> n" "n < 16" | "16 \<le> n" "n < 24" | "24 \<le> n" "n < 32"
    by fastforce
  then show "bit (push_bit 24 (drop_bit 24 w AND mask 8) OR push_bit 16 (drop_bit 16 w AND mask 8)
     OR push_bit 8 (drop_bit 8 w AND mask 8) OR (drop_bit 0 w AND mask 8)) n = bit w n"
    by cases (auto simp: bit_simps)
qed

lemma readByte_prefix:
  "j < 4 \<Longrightarrow> readByte (pre @ be32 n @ rest) (int (length pre) + int j) = ucast (be32 n ! j)"
  by (simp add: readByte_def be32_length nth_append nat_add_distrib)

lemma readLength_prefix:
  "readLength (pre @ be32 n @ rest) (int (length pre)) = sint (word_of_nat n :: 32 word)"
proof -
  let ?p = "pre @ be32 n @ rest"
  let ?o = "int (length pre)"
  have b0: "readByte ?p ?o = ucast (lengthByte n 24)"
    using readByte_prefix [of 0 pre n rest] by (simp add: lengthBytes_be32 [symmetric])
  have b1: "readByte ?p (?o + 1) = ucast (lengthByte n 16)"
    using readByte_prefix [of 1 pre n rest] by (simp add: lengthBytes_be32 [symmetric])
  have b2: "readByte ?p (?o + 2) = ucast (lengthByte n 8)"
    using readByte_prefix [of 2 pre n rest] by (simp add: lengthBytes_be32 [symmetric])
  have b3: "readByte ?p (?o + 3) = ucast (lengthByte n 0)"
    using readByte_prefix [of 3 pre n rest] by (simp add: lengthBytes_be32 [symmetric])
  show ?thesis
    unfolding readLength_def b0 b1 b2 b3
    using reassemble_word [of "word_of_nat n"]
    by (simp only: ucast_lengthByte le_refl numeral_le_iff semiring_norm zero_le)
qed

lemma sint_length: "n < 2 ^ 31 \<Longrightarrow> sint (word_of_nat n :: 32 word) = int n"
  by (simp add: signed_of_nat signed_take_bit_int_eq_self)

lemma typedArraySlice_prefix:
  "typedArraySlice (pre @ rest) (int (length pre)) (int (length pre) + int n) = take n rest"
  by (simp add: typedArraySlice_def Let_def min_def)

lemma unpackLoop_step:
  assumes "n < 2 ^ 31"
  shows "unpackLoop (pre @ be32 n @ rest) (int (length pre)) acc
       = unpackLoop (pre @ be32 n @ rest) (int (length pre) + 4 + int n) (acc @ [take n rest])"
proof -
  have len: "readLength (pre @ be32 n @ rest) (int (length pre)) = int n"
    using assms by (simp add: readLength_prefix sint_length)
  have sl: "typedArraySlice (pre @ be32 n @ rest) (int (length pre) + 4) (int (length pre) + 4 + int n)
      = take n rest"
    using typedArraySlice_prefix [of "pre @ be32 n" rest n] by (simp add: be32_length)
  show ?thesis
    by (subst unpackLoop.simps) (simp add: len sl be32_length Let_def)
qed

lemma unpackLoop_format:
  assumes "\<forall>v \<in> set vs. length v < 2 ^ 31"
  shows "unpackLoop (pre @ packedFormat vs @ suf) (int (length pre)) acc
       = unpackLoop (pre @ packedFormat vs @ suf) (int (length pre + length (packedFormat vs))) (acc @ vs)"
  using assms
proof (induction vs arbitrary: pre acc)
  case Nil
  then show ?case by (simp add: packedFormat_def)
next
  case (Cons v vs)
  have fmt: "packedFormat (v # vs) = be32 (length v) @ v @ packedFormat vs"
    by (simp add: packedFormat_def)
  let ?p = "pre @ packedFormat (v # vs) @ suf"
  have "unpackLoop ?p (int (length pre)) acc
      = unpackLoop ?p (int (length pre) + 4 + int (length v)) (acc @ [v])"
    using unpackLoop_step [of "length v" pre "v @ packedFormat vs @ suf" acc] Cons.prems
    by (simp add: fmt)
  also have "\<dots> = unpackLoop ((pre @ be32 (length v) @ v) @ packedFormat vs @ suf)
        (int (length (pre @ be32 (length v) @ v))) (acc @ [v])"
    by (simp add: fmt be32_length add.assoc)
  also have "\<dots> = unpackLoop ((pre @ be32 (length v) @ v) @ packedFormat vs @ suf)
        (int (length (pre @ be32 (length v) @ v) + length (packedFormat vs))) ((acc @ [v]) @ vs)"
    using Cons.prems by (intro Cons.IH) simp
  finally show ?case
    by (simp add: fmt be32_length add.assoc)
qed

lemma unpackLoop_end:
  "int (length packed) \<le> offset \<Longrightarrow> unpackLoop packed offset acc = Some acc"
  by (subst unpackLoop.simps) simp

lemma unpackLoop_extends:
  assumes "unpackLoop packed offset acc = Some y"
  shows "take (length acc) y = acc"
proof (rule unpackLoop.raw_induct
    [where P = "\<lambda>packed offset acc y. take (length acc) y = acc", OF _ assms])
  fix f :: "byte list \<Rightarrow> int \<Rightarrow> byte list list \<Rightarrow> byte list list option"
  fix packed offset acc y
  assume IH: "\<And>p off a y. f p off a = Some y \<Longrightarrow> take (length a) y = a"
  assume step: "(if offset < int (length packed)
      then let len = readLength packed offset; offset4 = offset + 4;
               v = typedArraySlice packed offset4 (offset4 + len)
           in f packed (offset4 + len) (acc @ [v])
      else Some acc) = Some y"
  show "take (length acc) y = acc"
  proof (cases "offset < int (length packed)")
    case True
    let ?v = "typedArraySlice packed (offset + 4) (offset + 4 + readLength packed offset)"
    from step True
    have "f packed (offset + 4 + readLength packed offset) (acc @ [?v]) = Some y"
      by (simp add: Let_def)
    then have "take (length (acc @ [?v])) y = acc @ [?v]"
      by (rule IH)
    then have "take (length acc) (take (length (acc @ [?v])) y) = take (length acc) (acc @ [?v])"
      by simp
    then show ?thesis by (simp add: min_def)
  next
    case False
    with step show ?thesis by simp
  qed
qed

text \<open>
  The loop need not end: the prefix \<open>FF FF FF FC\<close> reads as the length \<open>- 4\<close>, which moves the
  offset back to 0.
\<close>

lemma unpackValues_diverges: "unpackValues [255, 255, 255, 252] = None"
proof (rule ccontr)
  assume "unpackValues [255, 255, 255, 252] \<noteq> None"
  then obtain y where y: "unpackLoop [255, 255, 255, 252] 0 [] = Some y"
    by (auto simp: unpackValues_def)
  have len: "readLength [255, 255, 255, 252] 0 = - 4"
    by code_simp
  have "packed = [255, 255, 255, 252] \<longrightarrow> offset = 0 \<longrightarrow> False"
    if "unpackLoop packed offset acc = Some y" for packed offset acc y
  proof (rule unpackLoop.raw_induct
      [where P = "\<lambda>packed offset acc y. packed = [255, 255, 255, 252] \<longrightarrow> offset = 0 \<longrightarrow> False",
       OF _ that])
    fix f :: "byte list \<Rightarrow> int \<Rightarrow> byte list list \<Rightarrow> byte list list option"
    fix packed offset acc y
    assume IH: "\<And>p off a y. f p off a = Some y \<Longrightarrow> p = [255, 255, 255, 252] \<longrightarrow> off = 0 \<longrightarrow> False"
    assume step: "(if offset < int (length packed)
        then let len = readLength packed offset; offset4 = offset + 4;
                 v = typedArraySlice packed offset4 (offset4 + len)
             in f packed (offset4 + len) (acc @ [v])
        else Some acc) = Some y"
    show "packed = [255, 255, 255, 252] \<longrightarrow> offset = 0 \<longrightarrow> False"
    proof (intro impI)
      assume p: "packed = [255, 255, 255, 252]" and o: "offset = 0"
      from step have "f packed 0 (acc @ [typedArraySlice packed 4 0]) = Some y"
        unfolding p o by (simp add: len Let_def)
      from IH [OF this] p show False by simp
    qed
  qed
  from this [OF y] show False by simp
qed

lemma sint_two_gib: "sint (word_of_nat (2 ^ 31) :: 32 word) = - 2147483648"
  by (simp add: signed_of_nat)

lemma be32_two_gib: "be32 (2 ^ 31) = [128, 0, 0, 0]"
  by (simp add: be32_def)

lemma two_gib_round_trip_fails:
  assumes N: "N = 2 ^ 31"
  shows "packValues [replicate N 0] = Inr ([128, 0, 0, 0] @ replicate N 0)
       \<and> unpackValues ([128, 0, 0, 0] @ replicate N 0) \<noteq> Some [replicate N 0]"
proof -
  let ?p = "[128, 0, 0, 0] @ replicate N (0 :: byte)"
  have be: "be32 N = [128, 0, 0, 0]"
    unfolding N by (rule be32_two_gib)
  have sN: "sint (word_of_nat N :: 32 word) = - 2147483648"
    unfolding N by (rule sint_two_gib)
  have len: "readLength ?p 0 = - 2147483648"
    using readLength_prefix [of "[]" N "replicate N 0"] by (simp add: be sN)
  have N4: "4 \<le> N" "N \<noteq> 4" and iN: "int N = 2147483648"
    unfolding N by simp_all
  have sl: "typedArraySlice ?p 4 (4 + - 2147483648) = replicate 4 0"
    using N4 iN by (simp add: typedArraySlice_def Let_def min_def)
  have pack: "packValues [replicate N 0] = Inr ?p"
    by (simp add: packValues_format packedFormat_def be)
  have "unpackValues ?p \<noteq> Some [replicate N 0]"
  proof
    assume "unpackValues ?p = Some [replicate N 0]"
    moreover have "unpackLoop ?p 0 []
        = unpackLoop ?p (0 + 4 + readLength ?p 0)
            ([] @ [typedArraySlice ?p (0 + 4) (0 + 4 + readLength ?p 0)])"
      by (subst unpackLoop.simps) (simp only: Let_def length_append list.size, simp)
    ultimately have "unpackLoop ?p (0 + 4 + - 2147483648) ([] @ [replicate 4 0]) = Some [replicate N 0]"
      unfolding unpackValues_def len using sl by simp
    from unpackLoop_extends [OF this] have "replicate N (0 :: byte) = replicate 4 0"
      by simp
    then have "length (replicate N (0 :: byte)) = length (replicate 4 (0 :: byte))"
      by (rule arg_cong)
    with N4 show False by simp
  qed
  with pack show ?thesis by simp
qed

lemma readLength_before_start: "offset \<le> - 4 \<Longrightarrow> readLength packed offset = 0"
  by (simp add: readLength_def readByte_def)

text \<open>
  After the first value the offset is \<open>4 - 2 ^ 31\<close>. Every read before the start of the buffer
  gives the length 0 and moves the offset on by 4, until it is 0 again: the loop never ends.
\<close>

lemma two_gib_never_returns:
  assumes N: "N = 2 ^ 31"
  shows "unpackValues ([128, 0, 0, 0] @ replicate N 0) = None"
proof (rule ccontr)
  let ?p = "[128, 0, 0, 0] @ replicate N (0 :: byte)"
  assume "unpackValues ?p \<noteq> None"
  then obtain y where y: "unpackLoop ?p 0 [] = Some y"
    by (auto simp: unpackValues_def)
  have be: "be32 N = [128, 0, 0, 0]"
    unfolding N by (rule be32_two_gib)
  have sN: "sint (word_of_nat N :: 32 word) = - 2147483648"
    unfolding N by (rule sint_two_gib)
  have len0: "readLength ?p 0 = - 2147483648"
    using readLength_prefix [of "[]" N "replicate N 0"] by (simp add: be sN)
  have "packed = ?p \<longrightarrow> offset \<le> 0 \<longrightarrow> 4 dvd offset \<longrightarrow> False"
    if "unpackLoop packed offset acc = Some y" for packed offset acc y
  proof (rule unpackLoop.raw_induct
      [where P = "\<lambda>packed offset acc y. packed = ?p \<longrightarrow> offset \<le> 0 \<longrightarrow> 4 dvd offset \<longrightarrow> False",
       OF _ that])
    fix f :: "byte list \<Rightarrow> int \<Rightarrow> byte list list \<Rightarrow> byte list list option"
    fix packed offset acc y
    assume IH: "\<And>p off a y. f p off a = Some y \<Longrightarrow> p = ?p \<longrightarrow> off \<le> 0 \<longrightarrow> 4 dvd off \<longrightarrow> False"
    assume step: "(if offset < int (length packed)
        then let len = readLength packed offset; offset4 = offset + 4;
                 v = typedArraySlice packed offset4 (offset4 + len)
             in f packed (offset4 + len) (acc @ [v])
        else Some acc) = Some y"
    show "packed = ?p \<longrightarrow> offset \<le> 0 \<longrightarrow> 4 dvd offset \<longrightarrow> False"
    proof (intro impI)
      assume p: "packed = ?p" and o1: "offset \<le> 0" and o2: "4 dvd offset"
      have lt: "offset < int (length packed)"
        using o1 unfolding p by simp
      let ?next = "offset + 4 + readLength packed offset"
      from step lt
      have "f packed ?next
          (acc @ [typedArraySlice packed (offset + 4) (offset + 4 + readLength packed offset)]) = Some y"
        by (simp only: if_True Let_def)
      from IH [OF this] p have again: "?next \<le> 0 \<longrightarrow> 4 dvd ?next \<longrightarrow> False"
        by blast
      show False
      proof (cases "offset = 0")
        case True
        have "?next = - 2147483644"
          unfolding True p len0 by simp
        with again show False by simp
      next
        case False
        with o1 o2 have "offset \<le> - 4"
          by presburger
        then have "?next = offset + 4"
          by (simp add: readLength_before_start)
        with again o2 \<open>offset \<le> - 4\<close> show False by simp
      qed
    qed
  qed
  from this [OF y] show False by simp
qed

text \<open>
  C9. The round trip \<open>unpackValues(packValues(values)) == values\<close> is what the code sets out
  to do, and \<open>packValues\<close> does its part for a buffer of \<open>2 ^ 31\<close> bytes: it writes the unsigned
  big-endian prefix \<open>80 00 00 00\<close>. \<open>unpackValues\<close> joins the prefix bytes with \<^verbatim>\<open><<\<close> and \<^verbatim>\<open>|\<close>
  into a signed 32-bit integer and reads the length \<open>- 2 ^ 31\<close>: its first value is four bytes
  long, the offset turns negative, and the loop never returns. The code does not give back
  the sequence that was packed.
\<close>

theorem unpackValues_packValues_two_gib:
  "packValues [replicate (2 ^ 31) 0] = Inr ([128, 0, 0, 0] @ replicate (2 ^ 31) 0)
   \<and> unpackValues ([128, 0, 0, 0] @ replicate (2 ^ 31) 0) = None
   \<and> unpackValues ([128, 0, 0, 0] @ replicate (2 ^ 31) 0) \<noteq> Some [replicate (2 ^ 31) 0]"
  using two_gib_round_trip_fails [OF refl] two_gib_never_returns [OF refl]
  by (simp only: simp_thms)

text \<open>
  Where the sign of the length does not come into play, the round trip holds: for every
  sequence of byte buffers each shorter than \<open>2 ^ 31\<close> bytes, the empty sequence and
  zero-length buffers included, \<open>packValues\<close> returns the concatenation of the records
  \<open>4-byte big-endian length, raw bytes\<close>, and \<open>unpackValues\<close> of that buffer returns the sequence.
\<close>

lemma unpackValues_packValues_small:
  assumes "\<forall>v \<in> set vs. length v < 2 ^ 31"
  shows "packValues vs = Inr (packedFormat vs) \<and> unpackValues (packedFormat vs) = Some vs"
proof -
  have "unpackLoop (packedFormat vs) 0 [] = unpackLoop (packedFormat vs) (int (length (packedFormat vs))) vs"
    using unpackLoop_format [OF assms, of "[]" "[]" "[]"] by simp
  also have "\<dots> = Some vs"
    by (rule unpackLoop_end) simp
  finally show ?thesis
    by (simp add: unpackValues_def packValues_format)
qed

lemma unpackValues_packValues_small_example:
  "packValues [[1, 2], [], [3]] = Inr [0, 0, 0, 2, 1, 2, 0, 0, 0, 0, 0, 0, 0, 1, 3]
   \<and> unpackValues [0, 0, 0, 2, 1, 2, 0, 0, 0, 0, 0, 0, 0, 1, 3] = Some [[1, 2], [], [3]]"
proof -
  have h: "\<forall>v \<in> set [[1, 2], [], [3 :: byte]]. length v < 2 ^ 31"
    by simp
  have f: "packedFormat [[1, 2], [], [3]] = [0, 0, 0, 2, 1, 2, 0, 0, 0, 0, 0, 0, 0, 1, 3]"
    by (simp add: packedFormat_def be32_def)
  show ?thesis
    using unpackValues_packValues_small [OF h] unfolding f by simp
qed

text \<open>
  C8, as stated, fails: the prefix of this buffer declares five bytes, two remain, and
  \<open>unpackValues\<close> returns the two bytes as the value.
\<close>

theorem unpackValues_rejects_counterexample:
  "unpackValues [0, 0, 0, 5, 1, 2] = Some [[1, 2]]"
  by code_simp

text \<open>
  C8 (amended). \<open>unpackValues\<close> has no failure result. For a buffer that ends in a record whose
  length prefix declares \<open>n\<close> bytes while fewer remain (after well-formed records of values
  shorter than \<open>2 ^ 31\<close> bytes, \<open>n < 2 ^ 31\<close>), it returns the values of the records before,
  followed by the bytes that remain as the last value.
\<close>

theorem unpackValues_truncates:
  assumes "\<forall>v \<in> set vs. length v < 2 ^ 31" and "n < 2 ^ 31" and "length rest < n"
  shows "unpackValues (packedFormat vs @ be32 n @ rest) = Some (vs @ [rest])"
proof -
  let ?p = "packedFormat vs @ be32 n @ rest"
  have "unpackLoop ?p 0 [] = unpackLoop ?p (int (length (packedFormat vs))) vs"
    using unpackLoop_format [OF assms(1), of "[]" "be32 n @ rest" "[]"] by simp
  also have "\<dots> = unpackLoop ?p (int (length (packedFormat vs)) + 4 + int n) (vs @ [take n rest])"
    using unpackLoop_step [OF assms(2), of "packedFormat vs" rest vs] by simp
  also have "\<dots> = Some (vs @ [take n rest])"
    using assms(3) by (intro unpackLoop_end) (simp add: be32_length)
  finally show ?thesis
    using assms(3) by (simp add: unpackValues_def)
qed

theorem unpackValues_truncates_witness:
  "(5 :: nat) < 2 ^ 31 \<and> length [1, 2 :: byte] < 5
   \<and> unpackValues [0, 0, 0, 1, 7, 0, 0, 0, 5, 1, 2] = Some [[7], [1, 2]]"
proof -
  have h1: "\<forall>v \<in> set [[7 :: byte]]. length v < 2 ^ 31" and h2: "(5 :: nat) < 2 ^ 31"
    and h3: "length [1, 2 :: byte] < 5"
    by simp_all
  have f: "packedFormat [[7]] @ be32 5 @ [1, 2] = [0, 0, 0, 1, 7, 0, 0, 0, 5, 1, 2]"
    by (simp add: packedFormat_def be32_def)
  show ?thesis
    using h2 h3 unpackValues_truncates [OF h1 h2 h3] unfolding f by simp
qed

subsection \<open>The multiply chain\<close>

lemma multiplyLoop_append:
  "multiplyLoop r (xs @ ys) = multiplyLoop (multiplyLoop r xs) ys"
  by (induction xs arbitrary: r) (simp_all add: Let_def)

lemma multiplyLoop_take_Suc:
  "k < length xs \<Longrightarrow>
   multiplyLoop r (take (Suc k) xs) = multiplyLoop (multiplyLoop r (take k xs)) [xs ! k]"
  by (simp add: take_Suc_conv_app_nth multiplyLoop_append del: multiplyLoop.simps)

lemma multiplyLoop_single:
  "multiplyLoop acc [x] =
     (if 3 < size_ct (performHomomorphicMultiply acc x)
      then relinearizeMockValue (performHomomorphicMultiply acc x)
      else performHomomorphicMultiply acc x)"
  by (simp add: Let_def needsRelinearization_def MAX_CIPHERTEXT_SIZE_def relinearize_def)

lemma size_performHomomorphicMultiply:
  "size_ct (performHomomorphicMultiply a b) = size_ct a + size_ct b"
  by (simp add: performHomomorphicMultiply_def)

lemma multiplyLoop_size2:
  "size_ct r = 2 \<Longrightarrow> \<forall>c \<in> set xs. size_ct c = 2 \<Longrightarrow> size_ct (multiplyLoop r xs) = 2"
proof (induction xs arbitrary: r)
  case Nil
  then show ?case by simp
next
  case (Cons x xs)
  have "size_ct (multiplyLoop r [x]) = 2"
    using Cons.prems
    by (simp add: multiplyLoop_single size_performHomomorphicMultiply relinearizeMockValue_def
        del: multiplyLoop.simps)
  moreover have "multiplyLoop r (x # xs) = multiplyLoop (multiplyLoop r [x]) xs"
    using multiplyLoop_append [of r "[x]" xs] by simp
  ultimately show ?case
    using Cons.IH [of "multiplyLoop r [x]"] Cons.prems by simp
qed

text \<open>
  C5. \<open>performMultiplication\<close> on two or more inputs returns the value of the loop. The
  accumulator after \<open>k\<close> iterations, \<open>multiplyLoop (hd ins) (take k (tl ins))\<close>, is what
  multiplication \<open>k + 1\<close> takes as its left operand; whenever that product has a component
  count above 3, the next accumulator is the product relinearized, with component count 2,
  and otherwise the product itself, so no accumulator after a multiplication has a count above 3.
  When every input has component count 2, every accumulator and the returned result have
  component count 2, and the result is marked relinearized.
\<close>

theorem performMultiplication_relinearizes:
  assumes "2 \<le> length ins"
  shows "performMultiplication ins = Inr (multiplyLoop (hd ins) (tl ins))
    \<and> (\<forall>k < length (tl ins).
          let acc = multiplyLoop (hd ins) (take k (tl ins));
              product = performHomomorphicMultiply acc (tl ins ! k);
              acc' = multiplyLoop (hd ins) (take (Suc k) (tl ins))
          in (3 < size_ct product \<longrightarrow> acc' = relinearizeMockValue product \<and> size_ct acc' = 2)
           \<and> (\<not> 3 < size_ct product \<longrightarrow> acc' = product)
           \<and> size_ct acc' \<le> 3)
    \<and> ((\<forall>c \<in> set ins. size_ct c = 2) \<longrightarrow>
          (\<forall>k \<le> length (tl ins). size_ct (multiplyLoop (hd ins) (take k (tl ins))) = 2)
          \<and> size_ct (multiplyLoop (hd ins) (tl ins)) = 2
          \<and> relinearized (multiplyLoop (hd ins) (tl ins)) = Some True)"
proof (intro conjI allI impI)
  show "performMultiplication ins = Inr (multiplyLoop (hd ins) (tl ins))"
    using assms by (simp add: performMultiplication_def)
next
  fix k
  assume k: "k < length (tl ins)"
  let ?acc = "multiplyLoop (hd ins) (take k (tl ins))"
  let ?product = "performHomomorphicMultiply ?acc (tl ins ! k)"
  have next_acc: "multiplyLoop (hd ins) (take (Suc k) (tl ins))
      = (if 3 < size_ct ?product then relinearizeMockValue ?product else ?product)"
    using multiplyLoop_take_Suc [OF k, of "hd ins"] by (simp only: multiplyLoop_single)
  show "let acc = multiplyLoop (hd ins) (take k (tl ins));
            product = performHomomorphicMultiply acc (tl ins ! k);
            acc' = multiplyLoop (hd ins) (take (Suc k) (tl ins))
        in (3 < size_ct product \<longrightarrow> acc' = relinearizeMockValue product \<and> size_ct acc' = 2)
         \<and> (\<not> 3 < size_ct product \<longrightarrow> acc' = product)
         \<and> size_ct acc' \<le> 3"
    unfolding Let_def next_acc by (simp add: relinearizeMockValue_def)
next
  fix k
  assume all2: "\<forall>c \<in> set ins. size_ct c = 2" and "k \<le> length (tl ins)"
  from assms obtain x xs where ins: "ins = x # xs"
    by (cases ins) auto
  have "\<forall>c \<in> set (take k xs). size_ct c = 2"
    using all2 ins by (auto dest: in_set_takeD)
  then show "size_ct (multiplyLoop (hd ins) (take k (tl ins))) = 2"
    using all2 ins by (simp add: multiplyLoop_size2)
next
  assume all2: "\<forall>c \<in> set ins. size_ct c = 2"
  from assms obtain x xs where ins: "ins = x # xs"
    by (cases ins) auto
  then show "size_ct (multiplyLoop (hd ins) (tl ins)) = 2"
    using all2 by (simp add: multiplyLoop_size2)
next
  assume all2: "\<forall>c \<in> set ins. size_ct c = 2"
  from assms obtain x y ys where ins: "ins = x # y # ys"
    by (cases ins; cases "tl ins") auto
  let ?xs = "y # ys"
  let ?acc = "multiplyLoop x (butlast ?xs)"
  let ?product = "performHomomorphicMultiply ?acc (last ?xs)"
  have "size_ct ?acc = 2"
    using all2 ins by (intro multiplyLoop_size2) (auto dest: in_set_butlastD)
  moreover have "size_ct (last ?xs) = 2"
    using all2 ins last_in_set [of ?xs] by auto
  ultimately have big: "3 < size_ct ?product"
    by (simp add: size_performHomomorphicMultiply)
  have "multiplyLoop x ?xs = multiplyLoop ?acc [last ?xs]"
    using multiplyLoop_append [of x "butlast ?xs" "[last ?xs]"]
    by (simp only: append_butlast_last_id [of ?xs] list.distinct not_False_eq_True)
  then have "multiplyLoop x ?xs = relinearizeMockValue ?product"
    using big by (simp only: multiplyLoop_single if_True)
  then show "relinearized (multiplyLoop (hd ins) (tl ins)) = Some True"
    using ins by (simp add: relinearizeMockValue_def)
qed


theorem performMultiplication_relinearizes_witness:
  "2 \<le> length (replicate 3 \<lparr> data = [1], noise = 3.2, depth = 0, size_ct = 2,
                               bootstrapped = None, relinearized = None \<rparr>)
   \<and> map_sum id size_ct
        (performMultiplication (replicate 3 \<lparr> data = [1], noise = 3.2, depth = 0, size_ct = 2,
                               bootstrapped = None, relinearized = None \<rparr>)) = Inr 2"
proof -
  let ?ins = "replicate 3 \<lparr> data = [1 :: byte], noise = 3.2, depth = 0, size_ct = 2,
                            bootstrapped = None, relinearized = None \<rparr>"
  have len: "2 \<le> length ?ins" and all2: "\<forall>c \<in> set ?ins. size_ct c = 2"
    by simp_all
  from performMultiplication_relinearizes [OF len] all2
  have "performMultiplication ?ins = Inr (multiplyLoop (hd ?ins) (tl ?ins))"
    and "size_ct (multiplyLoop (hd ?ins) (tl ?ins)) = 2"
    by blast+
  with len show ?thesis by simp
qed

subsection \<open>Circuit depth\<close>

lemma seedDepths_lookup:
  "seedDepths is depths i = (if i \<in> set is then Some (Some 0) else depths i)"
  by (induction "is" arbitrary: depths) auto

lemma Max_insert_max:
  fixes a d :: "'a :: linorder"
  shows "finite S \<Longrightarrow> Max (insert (max a d) S) = max a (Max (insert d S))"
  by (cases "S = {}") (simp_all add: max.assoc)

lemma mathMax_fold: "fold max ds a = Max (insert a (set ds))"
proof (induction ds arbitrary: a)
  case Nil
  then show ?case by simp
next
  case (Cons d ds)
  have "fold max (d # ds) a = fold max ds (max d a)"
    by simp
  also have "\<dots> = Max (insert (max d a) (set ds))"
    by (rule Cons.IH)
  also have "\<dots> = max d (Max (insert a (set ds)))"
    by (rule Max_insert_max) simp
  also have "\<dots> = Max (insert d (insert a (set ds)))"
    by (rule Max_insert [symmetric]) simp_all
  also have "insert d (insert a (set ds)) = insert a (set (d # ds))"
    by auto
  finally show ?case .
qed

lemma mathMax_Max: "ds \<noteq> [] \<Longrightarrow> mathMax ds = Max (set ds)"
proof -
  assume "ds \<noteq> []"
  then have "Max (insert None (set ds)) = max None (Max (set ds))"
    by simp
  then show ?thesis
    by (simp add: mathMax_def mathMax_fold max_def)
qed

lemma depthLoop_gateDepths:
  "depthLoop gs depths maxDepth = Max (insert maxDepth (set (gateDepths gs depths)))"
proof (induction gs arbitrary: depths maxDepth)
  case Nil
  then show ?case by simp
next
  case (Cons g gs)
  let ?d = "gateDepthOf depths g"
  let ?depths = "depths(gateOutput g \<mapsto> ?d)"
  have "depthLoop (g # gs) depths maxDepth = depthLoop gs ?depths (max maxDepth ?d)"
    by (simp only: depthLoop.simps Let_def)
  also have "\<dots> = Max (insert (max maxDepth ?d) (set (gateDepths gs ?depths)))"
    by (rule Cons.IH)
  also have "\<dots> = max maxDepth (Max (insert ?d (set (gateDepths gs ?depths))))"
    by (rule Max_insert_max) simp
  also have "\<dots> = Max (insert maxDepth (insert ?d (set (gateDepths gs ?depths))))"
    by (rule Max_insert [symmetric]) simp_all
  also have "insert ?d (set (gateDepths gs ?depths)) = set (gateDepths (g # gs) depths)"
    by (simp only: gateDepths.simps list.set)
  finally show ?case .
qed

text \<open>Gates that all have an input wire never produce \<^verbatim>\<open>-Infinity\<close>: every depth is at least 0.\<close>

lemma depthOf_nonneg: "nonnegDepths depths \<Longrightarrow> Some 0 \<le> depthOf depths w"
  by (cases "depths w") (auto simp: nonnegDepths_def depthOf_def)

lemma gateDepthOf_nonneg:
  assumes "nonnegDepths depths" "gateInputs g \<noteq> []"
  shows "Some 0 \<le> gateDepthOf depths g"
proof -
  let ?ds = "map (depthOf depths) (gateInputs g)"
  from assms(2) obtain w where w: "w \<in> set (gateInputs g)"
    by (cases "gateInputs g") auto
  have "Some 0 \<le> depthOf depths w"
    using assms(1) by (rule depthOf_nonneg)
  also have "depthOf depths w \<le> Max (set ?ds)"
    using w by (intro Max_ge) auto
  finally have "Some 0 \<le> mathMax ?ds"
    using assms(2) by (simp add: mathMax_Max)
  then obtain k where k: "mathMax ?ds = Some k" "0 \<le> k"
    by (cases "mathMax ?ds") auto
  then show ?thesis
    by (simp add: gateDepthOf_def Let_def)
qed

lemma gateDepths_nonneg:
  "nonnegDepths depths \<Longrightarrow> \<forall>g \<in> set gs. gateInputs g \<noteq> [] \<Longrightarrow>
   \<forall>d \<in> set (gateDepths gs depths). Some 0 \<le> d"
proof (induction gs arbitrary: depths)
  case Nil
  then show ?case by simp
next
  case (Cons g gs)
  let ?d = "gateDepthOf depths g"
  let ?depths = "depths(gateOutput g \<mapsto> ?d)"
  have d: "Some 0 \<le> ?d"
    using Cons.prems by (simp add: gateDepthOf_nonneg)
  then have "nonnegDepths ?depths"
    using Cons.prems(1) unfolding nonnegDepths_def by (simp add: fun_upd_def)
  moreover have "\<forall>g \<in> set gs. gateInputs g \<noteq> []"
    using Cons.prems(2) by simp
  ultimately have "\<forall>d \<in> set (gateDepths gs ?depths). Some 0 \<le> d"
    by (rule Cons.IH [of ?depths])
  with d show ?case by (simp only: gateDepths.simps list.set ball_simps)
qed

lemma seedDepths_nonneg: "nonnegDepths (seedDepths is Map.empty)"
  by (simp add: nonnegDepths_def seedDepths_lookup)

lemma gateDepths_Nil_iff: "gateDepths gs depths = [] \<longleftrightarrow> gs = []"
  by (cases gs) simp_all

lemma Max_insert_zero:
  fixes S :: "int option set"
  assumes "finite S" "S \<noteq> {}" "\<forall>d \<in> S. Some 0 \<le> d"
  shows "Max (insert (Some 0) S) = Max S"
proof -
  have "Some 0 \<le> Max S"
    using Max_in [OF assms(1,2)] assms(3) by blast
  then show ?thesis
    using assms(1,2) by (simp add: max_def)
qed

text \<open>
  C6. Every declared input is seeded with depth 0. A gate with inputs gets the maximum of
  its input depths, plus 1 when its operation is \<open>multiply\<close>. The depth of the circuit is the
  maximum of 0 and the depths of all gates, taken in list order with each gate's depth
  recorded for its output wire, and it is the maximum over the gates when there is a gate
  and every gate has an input. The plan of \<open>compileCircuit\<close> carries this depth. A single
  \<open>add\<close> gate over two inputs gives depth 0, a single \<open>multiply\<close> gate depth 1, and two
  chained \<open>multiply\<close> gates depth 2.
\<close>

theorem calculateCircuitDepth_contract:
  "(\<forall>i \<in> set (inputs c). seedDepths (inputs c) Map.empty i = Some (Some 0))
   \<and> (gateInputs g \<noteq> [] \<longrightarrow>
        gateDepthOf depths g =
          (if operation g = ''multiply''
           then map_option (\<lambda>d. d + 1) (Max (set (map (depthOf depths) (gateInputs g))))
           else Max (set (map (depthOf depths) (gateInputs g)))))
   \<and> calculateCircuitDepth c
        = Max (insert (Some 0) (set (gateDepths (gates c) (seedDepths (inputs c) Map.empty))))
   \<and> (gates c \<noteq> [] \<and> (\<forall>g \<in> set (gates c). gateInputs g \<noteq> []) \<longrightarrow>
        calculateCircuitDepth c = Max (set (gateDepths (gates c) (seedDepths (inputs c) Map.empty))))
   \<and> map_sum id planDepth (compileCircuit c) = Inr (calculateCircuitDepth c)
   \<and> calculateCircuitDepth
        \<lparr> name = n, inputs = [x, y], outputs = [z],
          gates = [\<lparr> operation = ''add'', gateInputs = [x, y], gateOutput = z \<rparr>] \<rparr> = Some 0
   \<and> calculateCircuitDepth
        \<lparr> name = n, inputs = [x, y], outputs = [z],
          gates = [\<lparr> operation = ''multiply'', gateInputs = [x, y], gateOutput = z \<rparr>] \<rparr> = Some 1
   \<and> calculateCircuitDepth
        \<lparr> name = n, inputs = [x, y], outputs = [z],
          gates = [\<lparr> operation = ''multiply'', gateInputs = [x, y], gateOutput = t \<rparr>,
                   \<lparr> operation = ''multiply'', gateInputs = [t, y], gateOutput = z \<rparr>] \<rparr> = Some 2"
proof (intro conjI impI)
  show "\<forall>i \<in> set (inputs c). seedDepths (inputs c) Map.empty i = Some (Some 0)"
    by (simp add: seedDepths_lookup)
next
  assume "gateInputs g \<noteq> []"
  then show "gateDepthOf depths g =
      (if operation g = ''multiply''
       then map_option (\<lambda>d. d + 1) (Max (set (map (depthOf depths) (gateInputs g))))
       else Max (set (map (depthOf depths) (gateInputs g))))"
    by (simp add: gateDepthOf_def Let_def mathMax_Max del: set_map)
next
  show "calculateCircuitDepth c
      = Max (insert (Some 0) (set (gateDepths (gates c) (seedDepths (inputs c) Map.empty))))"
    by (simp only: calculateCircuitDepth_def depthLoop_gateDepths)
next
  assume wf: "gates c \<noteq> [] \<and> (\<forall>g \<in> set (gates c). gateInputs g \<noteq> [])"
  let ?S = "set (gateDepths (gates c) (seedDepths (inputs c) Map.empty))"
  have "\<forall>d \<in> ?S. Some 0 \<le> d"
    using wf by (intro gateDepths_nonneg seedDepths_nonneg) simp
  moreover have "?S \<noteq> {}"
    using wf by (simp add: gateDepths_Nil_iff)
  ultimately have "Max (insert (Some 0) ?S) = Max ?S"
    by (intro Max_insert_zero) simp_all
  then show "calculateCircuitDepth c = Max ?S"
    by (simp only: calculateCircuitDepth_def depthLoop_gateDepths)
next
  show "map_sum id planDepth (compileCircuit c) = Inr (calculateCircuitDepth c)"
    by (simp add: compileCircuit_def)
next
  show "calculateCircuitDepth
        \<lparr> name = n, inputs = [x, y], outputs = [z],
          gates = [\<lparr> operation = ''add'', gateInputs = [x, y], gateOutput = z \<rparr>] \<rparr> = Some 0"
    by (simp add: calculateCircuitDepth_def gateDepthOf_def depthOf_def mathMax_def Let_def)
next
  show "calculateCircuitDepth
        \<lparr> name = n, inputs = [x, y], outputs = [z],
          gates = [\<lparr> operation = ''multiply'', gateInputs = [x, y], gateOutput = z \<rparr>] \<rparr> = Some 1"
    by (simp add: calculateCircuitDepth_def gateDepthOf_def depthOf_def mathMax_def Let_def)
next
  show "calculateCircuitDepth
        \<lparr> name = n, inputs = [x, y], outputs = [z],
          gates = [\<lparr> operation = ''multiply'', gateInputs = [x, y], gateOutput = t \<rparr>,
                   \<lparr> operation = ''multiply'', gateInputs = [t, y], gateOutput = z \<rparr>] \<rparr> = Some 2"
    by (simp add: calculateCircuitDepth_def gateDepthOf_def depthOf_def mathMax_def Let_def)
qed


theorem calculateCircuitDepth_contract_witness:
  "gates \<lparr> name = ''chain'', inputs = [''a'', ''b''], outputs = [''o''],
           gates = [\<lparr> operation = ''multiply'', gateInputs = [''a'', ''b''], gateOutput = ''t'' \<rparr>,
                    \<lparr> operation = ''multiply'', gateInputs = [''t'', ''b''], gateOutput = ''o'' \<rparr>] \<rparr> \<noteq> []
   \<and> Max (set (gateDepths
        [\<lparr> operation = ''multiply'', gateInputs = [''a'', ''b''], gateOutput = ''t'' \<rparr>,
         \<lparr> operation = ''multiply'', gateInputs = [''t'', ''b''], gateOutput = ''o'' \<rparr>]
        (seedDepths [''a'', ''b''] Map.empty))) = Some 2"
proof -
  let ?g1 = "\<lparr> operation = ''multiply'', gateInputs = [''a'', ''b''], gateOutput = ''t'' \<rparr>"
  let ?g2 = "\<lparr> operation = ''multiply'', gateInputs = [''t'', ''b''], gateOutput = ''o'' \<rparr>"
  let ?c = "\<lparr> name = ''chain'', inputs = [''a'', ''b''], outputs = [''o''], gates = [?g1, ?g2] \<rparr>"
  have h1: "gates ?c \<noteq> []" and h2: "\<forall>g \<in> set (gates ?c). gateInputs g \<noteq> []"
    by simp_all
  from calculateCircuitDepth_contract
    [where c = ?c and n = "''chain''" and x = "''a''" and y = "''b''" and z = "''o''"
       and t = "''t''"] h1 h2
  have "calculateCircuitDepth ?c = Max (set (gateDepths (gates ?c) (seedDepths (inputs ?c) Map.empty)))"
    and "calculateCircuitDepth ?c = Some 2"
    by blast+
  with h1 show ?thesis by simp
qed

subsection \<open>No depth limit at compilation\<close>

text \<open>
  C7, as stated, fails: for twenty-one \<open>multiply\<close> gates in a row, each squaring the wire
  \<open>x\<close>, \<open>compileCircuit\<close> returns a plan, of depth 21, above \<open>MAX_CIRCUIT_DEPTH\<close>.
\<close>

theorem compileCircuit_rejects_counterexample:
  "map_sum id planDepth
     (compileCircuit
        \<lparr> name = ''deep'', inputs = [''x''], outputs = [''x''],
          gates = replicate 21
                    \<lparr> operation = ''multiply'', gateInputs = [''x'', ''x''], gateOutput = ''x'' \<rparr> \<rparr>)
     = Inr (Some 21)
   \<and> Some MAX_CIRCUIT_DEPTH < (Some 21 :: int option)"
proof -
  have "calculateCircuitDepth
        \<lparr> name = ''deep'', inputs = [''x''], outputs = [''x''],
          gates = replicate 21
                    \<lparr> operation = ''multiply'', gateInputs = [''x'', ''x''], gateOutput = ''x'' \<rparr> \<rparr>
      = Some 21"
    by code_simp
  then show ?thesis
    by (simp add: compileCircuit_def MAX_CIRCUIT_DEPTH_def)
qed

text \<open>
  C7 (amended). \<open>compileCircuit\<close> compares no depth with \<open>MAX_CIRCUIT_DEPTH\<close>: for every
  circuit whose depth exceeds it, compilation returns a plan, never an error, and the plan
  records that depth.
\<close>

theorem compileCircuit_no_depth_limit:
  assumes "Some MAX_CIRCUIT_DEPTH < calculateCircuitDepth c"
  shows "\<exists>p. compileCircuit c = Inr p
           \<and> planDepth p = calculateCircuitDepth c
           \<and> Some MAX_CIRCUIT_DEPTH < planDepth p
           \<and> compileCircuit c \<noteq> Inl (Error CIRCUIT_TOO_DEEP)"
  using assms by (simp add: compileCircuit_def)

theorem compileCircuit_no_depth_limit_witness:
  "Some MAX_CIRCUIT_DEPTH
     < calculateCircuitDepth
         \<lparr> name = ''deep'', inputs = [''x''], outputs = [''x''],
           gates = replicate 21
                     \<lparr> operation = ''multiply'', gateInputs = [''x'', ''x''], gateOutput = ''x'' \<rparr> \<rparr>
   \<and> (\<exists>p. compileCircuit
         \<lparr> name = ''deep'', inputs = [''x''], outputs = [''x''],
           gates = replicate 21
                     \<lparr> operation = ''multiply'', gateInputs = [''x'', ''x''], gateOutput = ''x'' \<rparr> \<rparr>
         = Inr p \<and> Some MAX_CIRCUIT_DEPTH < planDepth p)"
proof -
  let ?c = "\<lparr> name = ''deep'', inputs = [''x''], outputs = [''x''],
           gates = replicate 21
                     \<lparr> operation = ''multiply'', gateInputs = [''x'', ''x''], gateOutput = ''x'' \<rparr> \<rparr>"
  have "calculateCircuitDepth ?c = Some 21"
    by code_simp
  then have h: "Some MAX_CIRCUIT_DEPTH < calculateCircuitDepth ?c"
    by (simp add: MAX_CIRCUIT_DEPTH_def)
  from compileCircuit_no_depth_limit [OF h] h show ?thesis
    by blast
qed

subsection \<open>The reported noise level\<close>

lemma depth_performHomomorphicAdd:
  "depth (performHomomorphicAdd a b) = max (depth a) (depth b)"
  by (simp add: performHomomorphicAdd_def)

lemma depth_performHomomorphicMultiply:
  "depth (performHomomorphicMultiply a b) = max (depth a) (depth b) + 1"
  by (simp add: performHomomorphicMultiply_def)

lemma depth_foldl_add:
  "list_all2 (\<lambda>a b. depth a = depth b) xs ys \<Longrightarrow> depth a = depth b \<Longrightarrow>
   depth (foldl performHomomorphicAdd a xs) = depth (foldl performHomomorphicAdd b ys)"
proof (induction xs ys arbitrary: a b rule: list_all2_induct)
  case Nil
  then show ?case by simp
next
  case (Cons x xs y ys)
  have "depth (performHomomorphicAdd a x) = depth (performHomomorphicAdd b y)"
    using Cons.hyps(1) Cons.prems by (simp add: depth_performHomomorphicAdd)
  then show ?case
    using Cons.IH by simp
qed

lemma depth_multiplyLoop:
  "list_all2 (\<lambda>a b. depth a = depth b) xs ys \<Longrightarrow> depth a = depth b \<Longrightarrow>
   depth (multiplyLoop a xs) = depth (multiplyLoop b ys)"
proof (induction xs ys arbitrary: a b rule: list_all2_induct)
  case Nil
  then show ?case by simp
next
  case (Cons x xs y ys)
  let ?step = "\<lambda>a x. if needsRelinearization (performHomomorphicMultiply a x)
      then relinearize (performHomomorphicMultiply a x) else performHomomorphicMultiply a x"
  have "depth (?step a x) = depth (?step b y)"
    using Cons.hyps(1) Cons.prems
    by (simp add: depth_performHomomorphicMultiply relinearize_def relinearizeMockValue_def)
  then have "depth (multiplyLoop (?step a x) xs) = depth (multiplyLoop (?step b y) ys)"
    by (rule Cons.IH)
  then show ?case
    by (simp add: Let_def)
qed

lemma dispatchOperation_depth:
  assumes "list_all2 (\<lambda>a b. depth a = depth b) xs ys" and "opType o1 = opType o2"
  shows "rel_sum (=) (\<lambda>a b. depth a = depth b) (dispatchOperation o1 xs) (dispatchOperation o2 ys)"
proof -
  have len: "length xs = length ys"
    using assms(1) by (rule list_all2_lengthD)
  have heads: "depth (hd xs) = depth (hd ys)" "list_all2 (\<lambda>a b. depth a = depth b) (tl xs) (tl ys)"
    if "\<not> length ys < 2"
    using that assms(1) by (cases xs; cases ys; simp)+
  have add: "rel_sum (=) (\<lambda>a b. depth a = depth b)
      (performAddition xs) (performAddition ys)"
    using len heads by (auto simp: performAddition_def intro!: depth_foldl_add)
  have mul: "rel_sum (=) (\<lambda>a b. depth a = depth b)
      (performMultiplication xs) (performMultiplication ys)"
    using len heads by (auto simp: performMultiplication_def intro!: depth_multiplyLoop)
  have sub: "rel_sum (=) (\<lambda>a b. depth a = depth b)
      (performSubtraction xs) (performSubtraction ys)"
    using len assms(1)
    by (auto simp: performSubtraction_def depth_performHomomorphicAdd
        negateMockValue_def list_all2_conv_all_nth)
  have neg: "rel_sum (=) (\<lambda>a b. depth a = depth b) (performNegation xs) (performNegation ys)"
    using assms(1) by (cases xs; cases ys; simp add: performNegation_def negateMockValue_def)
  have rot: "rel_sum (=) (\<lambda>a b. depth a = depth b) (performRotation xs k) (performRotation ys k')"
    for k k'
    using assms(1)
    by (cases xs; cases ys; simp add: performRotation_def rotateMockValue_def Let_def)
  have boot: "rel_sum (=) (\<lambda>a b. depth a = depth b)
      (case xs of [] \<Rightarrow> Inl TypeError | c # _ \<Rightarrow> Inr (performBootstrapping c))
      (case ys of [] \<Rightarrow> Inl TypeError | c # _ \<Rightarrow> Inr (performBootstrapping c))"
    using assms(1)
    by (cases xs; cases ys; simp add: performBootstrapping_def bootstrapCiphertext_def)
  show ?thesis
    unfolding dispatchOperation_def assms(2)
    using add mul sub neg rot boot by simp
qed

lemma calculateNoiseLevel_depth:
  "depth c1 = depth c2 \<Longrightarrow>
   calculateNoiseLevel u (OfCiphertext c1) = calculateNoiseLevel u (OfCiphertext c2)"
  by (simp add: calculateNoiseLevel_def depthFactor_def)

lemma performHomomorphicOperation_depth:
  assumes "opType o1 = opType o2" and "autoBootstrap o1 = autoBootstrap o2"
    and "list_all2 (\<lambda>a b. s_depth a = s_depth b) (opInputs o1) (opInputs o2)"
  shows "map_sum id (\<lambda>r. (noiseLevel r, bootstrapped_r r)) (performHomomorphicOperation wallet rnd o1)
       = map_sum id (\<lambda>r. (noiseLevel r, bootstrapped_r r)) (performHomomorphicOperation wallet rnd o2)"
proof -
  let ?xs = "map deserializeCiphertext (opInputs o1)"
  let ?ys = "map deserializeCiphertext (opInputs o2)"
  have "list_all2 (\<lambda>a b. depth a = depth b) ?xs ?ys"
    using assms(3) by (simp add: list_all2_map1 list_all2_map2 deserializeCiphertext_def)
  then have rel: "rel_sum (=) (\<lambda>a b. depth a = depth b)
      (dispatchOperation o1 ?xs) (dispatchOperation o2 ?ys)"
    using assms(1) by (rule dispatchOperation_depth)
  show ?thesis
  proof (cases "dispatchOperation o1 ?xs")
    case (Inl e)
    with rel have "dispatchOperation o2 ?ys = Inl e"
      by (cases "dispatchOperation o2 ?ys") simp_all
    with Inl show ?thesis
      by (simp add: performHomomorphicOperation_def)
  next
    case (Inr c1)
    with rel obtain c2 where c2: "dispatchOperation o2 ?ys = Inr c2" "depth c1 = depth c2"
      by (cases "dispatchOperation o2 ?ys") simp_all
    have n0: "calculateNoiseLevel (rnd 0) (OfCiphertext c1) = calculateNoiseLevel (rnd 0) (OfCiphertext c2)"
      using c2(2) by (rule calculateNoiseLevel_depth)
    have n1: "calculateNoiseLevel (rnd 1) (OfCiphertext c1) = calculateNoiseLevel (rnd 1) (OfCiphertext c2)"
      using c2(2) by (rule calculateNoiseLevel_depth)
    have nb: "calculateNoiseLevel (rnd 1) (OfCiphertext (performBootstrapping c1))
        = calculateNoiseLevel (rnd 1) (OfCiphertext (performBootstrapping c2))"
      by (rule calculateNoiseLevel_depth) (simp add: performBootstrapping_def bootstrapCiphertext_def)
    show ?thesis
      using Inr c2(1) n0 n1 nb assms(2)
      by (simp add: performHomomorphicOperation_def Let_def)
  qed
qed

lemma encryptValue_returns: "\<exists>c. encryptValue keccak256 rnd m sigma = Inr c"
  by (simp add: encryptValue_def typedArraySet_def xorLoop_length arrayify_length Let_def)

text \<open>
  C10. With the same draw, \<open>calculateNoiseLevel\<close> gives two ciphertexts of equal depth the
  same value, whatever their noise and payload. So in \<open>performHomomorphicOperation\<close>, two
  operations of the same type and \<open>autoBootstrap\<close> flag whose inputs agree in depth, position
  by position, run with the same draws, report the same noise level and the same
  \<open>bootstrapped\<close> flag (or fail with the same error), whatever the noise and payload of the
  inputs; and the noise level in the metadata of \<open>encryptField\<close> is 50 times its draw,
  whatever was encrypted.
\<close>

theorem calculateNoiseLevel_ignores_noise:
  "(depth c1 = depth c2 \<longrightarrow>
      calculateNoiseLevel u (OfCiphertext c1) = calculateNoiseLevel u (OfCiphertext c2))
   \<and> (opType o1 = opType o2 \<and> autoBootstrap o1 = autoBootstrap o2
        \<and> list_all2 (\<lambda>a b. s_depth a = s_depth b) (opInputs o1) (opInputs o2) \<longrightarrow>
      map_sum id (\<lambda>r. (noiseLevel r, bootstrapped_r r)) (performHomomorphicOperation wallet rnd o1)
        = map_sum id (\<lambda>r. (noiseLevel r, bootstrapped_r r)) (performHomomorphicOperation wallet rnd o2))
   \<and> (wallet' \<noteq> None \<and> wallet' \<noteq> Some [] \<longrightarrow>
      map_sum id metadataNoiseLevel (encryptField keccak256 wallet' rnd' m s) = Inr (rnd' 64 * 50))"
proof (intro conjI impI)
  assume "depth c1 = depth c2"
  then show "calculateNoiseLevel u (OfCiphertext c1) = calculateNoiseLevel u (OfCiphertext c2)"
    by (rule calculateNoiseLevel_depth)
next
  assume "opType o1 = opType o2 \<and> autoBootstrap o1 = autoBootstrap o2
        \<and> list_all2 (\<lambda>a b. s_depth a = s_depth b) (opInputs o1) (opInputs o2)"
  then show "map_sum id (\<lambda>r. (noiseLevel r, bootstrapped_r r)) (performHomomorphicOperation wallet rnd o1)
        = map_sum id (\<lambda>r. (noiseLevel r, bootstrapped_r r)) (performHomomorphicOperation wallet rnd o2)"
    by (intro performHomomorphicOperation_depth) simp_all
next
  assume w: "wallet' \<noteq> None \<and> wallet' \<noteq> Some []"
  obtain c where "encryptValue keccak256 rnd' m (noiseStandardDeviation s) = Inr c"
    using encryptValue_returns by blast
  with w show "map_sum id metadataNoiseLevel (encryptField keccak256 wallet' rnd' m s) = Inr (rnd' 64 * 50)"
    by (simp add: encryptField_def performFheEncryption_def calculateNoiseLevel_def depthFactor_def)
qed


theorem calculateNoiseLevel_ignores_noise_witness:
  "depth \<lparr> data = [1], noise = 3.2, depth = 2, size_ct = 2, bootstrapped = None, relinearized = None \<rparr> = depth \<lparr> data = [9, 9], noise = 77, depth = 2, size_ct = 4, bootstrapped = None, relinearized = None \<rparr>
   \<and> calculateNoiseLevel (1 / 2) (OfCiphertext \<lparr> data = [1], noise = 3.2, depth = 2, size_ct = 2, bootstrapped = None, relinearized = None \<rparr>) = calculateNoiseLevel (1 / 2) (OfCiphertext \<lparr> data = [9, 9], noise = 77, depth = 2, size_ct = 4, bootstrapped = None, relinearized = None \<rparr>)
   \<and> (opType \<lparr> opType = ''multiply'', opInputs = [\<lparr> s_data = [1], s_noise = 3.2, s_depth = 2, s_size = 2, s_bootstrapped = False \<rparr>, \<lparr> s_data = [2], s_noise = 3.2, s_depth = 0, s_size = 2, s_bootstrapped = False \<rparr>],
            scheme = TFHE, autoBootstrap = Some True, rotationAmount = None \<rparr> = opType \<lparr> opType = ''multiply'', opInputs = [\<lparr> s_data = [9, 9], s_noise = 77, s_depth = 2, s_size = 2, s_bootstrapped = False \<rparr>, \<lparr> s_data = [], s_noise = 500, s_depth = 0, s_size = 2, s_bootstrapped = False \<rparr>],
            scheme = CKKS, autoBootstrap = Some True, rotationAmount = None \<rparr> \<and> autoBootstrap \<lparr> opType = ''multiply'', opInputs = [\<lparr> s_data = [1], s_noise = 3.2, s_depth = 2, s_size = 2, s_bootstrapped = False \<rparr>, \<lparr> s_data = [2], s_noise = 3.2, s_depth = 0, s_size = 2, s_bootstrapped = False \<rparr>],
            scheme = TFHE, autoBootstrap = Some True, rotationAmount = None \<rparr> = autoBootstrap \<lparr> opType = ''multiply'', opInputs = [\<lparr> s_data = [9, 9], s_noise = 77, s_depth = 2, s_size = 2, s_bootstrapped = False \<rparr>, \<lparr> s_data = [], s_noise = 500, s_depth = 0, s_size = 2, s_bootstrapped = False \<rparr>],
            scheme = CKKS, autoBootstrap = Some True, rotationAmount = None \<rparr>
        \<and> list_all2 (\<lambda>a b. s_depth a = s_depth b) (opInputs \<lparr> opType = ''multiply'', opInputs = [\<lparr> s_data = [1], s_noise = 3.2, s_depth = 2, s_size = 2, s_bootstrapped = False \<rparr>, \<lparr> s_data = [2], s_noise = 3.2, s_depth = 0, s_size = 2, s_bootstrapped = False \<rparr>],
            scheme = TFHE, autoBootstrap = Some True, rotationAmount = None \<rparr>) (opInputs \<lparr> opType = ''multiply'', opInputs = [\<lparr> s_data = [9, 9], s_noise = 77, s_depth = 2, s_size = 2, s_bootstrapped = False \<rparr>, \<lparr> s_data = [], s_noise = 500, s_depth = 0, s_size = 2, s_bootstrapped = False \<rparr>],
            scheme = CKKS, autoBootstrap = Some True, rotationAmount = None \<rparr>))
   \<and> map_sum id (\<lambda>r. (noiseLevel r, bootstrapped_r r))
         (performHomomorphicOperation (Some ''w'') (\<lambda>n. 1 / 2) \<lparr> opType = ''multiply'', opInputs = [\<lparr> s_data = [1], s_noise = 3.2, s_depth = 2, s_size = 2, s_bootstrapped = False \<rparr>, \<lparr> s_data = [2], s_noise = 3.2, s_depth = 0, s_size = 2, s_bootstrapped = False \<rparr>],
            scheme = TFHE, autoBootstrap = Some True, rotationAmount = None \<rparr>)
       = map_sum id (\<lambda>r. (noiseLevel r, bootstrapped_r r))
         (performHomomorphicOperation (Some ''w'') (\<lambda>n. 1 / 2) \<lparr> opType = ''multiply'', opInputs = [\<lparr> s_data = [9, 9], s_noise = 77, s_depth = 2, s_size = 2, s_bootstrapped = False \<rparr>, \<lparr> s_data = [], s_noise = 500, s_depth = 0, s_size = 2, s_bootstrapped = False \<rparr>],
            scheme = CKKS, autoBootstrap = Some True, rotationAmount = None \<rparr>)
   \<and> (Some ''w'' \<noteq> None \<and> Some ''w'' \<noteq> Some [])
   \<and> map_sum id metadataNoiseLevel
         (encryptField (\<lambda>bs. 0) (Some ''w'') (\<lambda>n. 1 / 2) [1, 2, 3] TFHE) = Inr 25"
proof -
  let ?c1 = "\<lparr> data = [1], noise = 3.2, depth = 2, size_ct = 2, bootstrapped = None, relinearized = None \<rparr>"
  let ?c2 = "\<lparr> data = [9, 9], noise = 77, depth = 2, size_ct = 4, bootstrapped = None, relinearized = None \<rparr>"
  let ?o1 = "\<lparr> opType = ''multiply'', opInputs = [\<lparr> s_data = [1], s_noise = 3.2, s_depth = 2, s_size = 2, s_bootstrapped = False \<rparr>, \<lparr> s_data = [2], s_noise = 3.2, s_depth = 0, s_size = 2, s_bootstrapped = False \<rparr>],
            scheme = TFHE, autoBootstrap = Some True, rotationAmount = None \<rparr>"
  let ?o2 = "\<lparr> opType = ''multiply'', opInputs = [\<lparr> s_data = [9, 9], s_noise = 77, s_depth = 2, s_size = 2, s_bootstrapped = False \<rparr>, \<lparr> s_data = [], s_noise = 500, s_depth = 0, s_size = 2, s_bootstrapped = False \<rparr>],
            scheme = CKKS, autoBootstrap = Some True, rotationAmount = None \<rparr>"
  have h1: "depth ?c1 = depth ?c2"
    by simp
  have h2: "opType ?o1 = opType ?o2 \<and> autoBootstrap ?o1 = autoBootstrap ?o2
        \<and> list_all2 (\<lambda>a b. s_depth a = s_depth b) (opInputs ?o1) (opInputs ?o2)"
    by simp
  have h3: "Some ''w'' \<noteq> None \<and> Some ''w'' \<noteq> Some []"
    by simp
  from calculateNoiseLevel_ignores_noise
    [where ?c1.0 = ?c1 and ?c2.0 = ?c2 and u = "1 / 2" and ?o1.0 = ?o1 and ?o2.0 = ?o2
       and wallet = "Some ''w''" and rnd = "\<lambda>n. 1 / 2" and wallet' = "Some ''w''"
       and rnd' = "\<lambda>n. 1 / 2" and ?keccak256.0 = "\<lambda>bs. 0" and m = "[1, 2, 3]" and s = TFHE]
    h1 h2 h3
  show ?thesis
    by simp
qed

end
